theory Spec2Isabelle
  imports Main "HOL-Library.Word" "HOL-Library.Log_Nat"
begin

unbundle bit_operations_syntax

section \<open>Events (qevt.h)\<close>

text \<open>
  Names follow the C++ sources. An identifier of the sources that ends in an underscore
  is written without it (\<^verbatim>\<open>poolId_\<close> is \<open>poolId\<close>), member functions carry their class
  (\<^verbatim>\<open>QMActive::post_\<close> is \<open>QMActive_post\<close>), and the two forms of \<^verbatim>\<open>QPSet\<close> are told
  apart by the suffixes 32 and 64.
\<close>

text \<open>
  An event is referenced through a pointer \<^verbatim>\<open>QEvt const *\<close>. Pointers are addresses,
  the null pointer is address 0, and the events themselves live in an explicit event
  memory that maps an address to the \<^verbatim>\<open>QEvt\<close> stored there. \<^verbatim>\<open>Q_SIGNAL_SIZE\<close> is 2 in
  qevt.h, so \<^verbatim>\<open>QSignal\<close> is a 16-bit value; \<^verbatim>\<open>poolId_\<close> and \<^verbatim>\<open>refCtr_\<close> are \<^verbatim>\<open>uint8_t\<close>.
\<close>

type_synonym evt_ptr = nat

record QEvt =
  sig :: "16 word"
  poolId :: "8 word"
  refCtr :: "8 word"

section \<open>The native event queue of an active object (qf_actq.cpp)\<close>

text \<open>
  \<^verbatim>\<open>QEQueueCtr\<close> is a typedef that qf_actq.cpp uses and does not declare; its width is
  the type parameter \<open>'c\<close>. The ring buffer is reached through the raw pointer
  \<^verbatim>\<open>m_ring\<close>, and \<^verbatim>\<open>QF_PTR_AT_(m_ring, i)\<close> is the cell at offset \<open>i\<close> from it: the model
  of \<^verbatim>\<open>m_ring\<close> is the memory seen through that pointer, indexed by the offset. That
  every offset the code uses stays below \<^verbatim>\<open>m_end\<close> is part of the queue invariant
  proved below.
\<close>

record (overloaded) ('c :: len) QEQueue =
  m_frontEvt :: evt_ptr
  m_ring :: "'c word \<Rightarrow> evt_ptr"
  m_end :: "'c word"
  m_head :: "'c word"
  m_tail :: "'c word"
  m_nFree :: "'c word"
  m_nMin :: "'c word"

text \<open>
  A failed assertion (\<^verbatim>\<open>Q_REQUIRE_ID\<close>, \<^verbatim>\<open>Q_ASSERT_ID\<close>) never returns: it is the
  error \<open>Q_onAssert id\<close> with the assertion's id in module \<^verbatim>\<open>qf_actq\<close>. Reading a
  field through a null event pointer is the error \<open>NullDeref\<close>.
\<close>

datatype error = Q_onAssert nat | NullDeref

text \<open>
  The port layer and the event pools are not part of the two source files. Calls into
  them are recorded, in order, in a log.
\<close>

datatype ext_call = EQUEUE_SIGNAL | EQUEUE_ONEMPTY | QF_GC evt_ptr

text \<open>
  The state that the member functions of one \<^verbatim>\<open>QMActive\<close> read and write: its event
  queue, the event memory, the storage handed back to each event pool, and the log of
  external calls. The code is modelled with \<^verbatim>\<open>Q_SPY\<close> undefined, where the tracing
  macros expand to nothing.
\<close>

record (overloaded) ('c :: len) QF_state =
  m_eQueue :: "'c QEQueue"
  evts :: "evt_ptr \<Rightarrow> QEvt"
  pool_free :: "8 word \<Rightarrow> evt_ptr list"
  calls :: "ext_call list"

text \<open>
  Modelled from the spec: \<^verbatim>\<open>QF_EVT_REF_CTR_INC_\<close>, a macro that is not in the source
  files (spec 4.2, \<^verbatim>\<open>inc_ref(e)\<close>: the byte counter of live references goes up by one).
\<close>

definition QF_EVT_REF_CTR_INC :: "evt_ptr \<Rightarrow> 'c::len QF_state \<Rightarrow> 'c QF_state" where
  "QF_EVT_REF_CTR_INC e s =
     s\<lparr>evts := (evts s)(e := (evts s e)\<lparr>refCtr := refCtr (evts s e) + 1\<rparr>)\<rparr>"

text \<open>
  Modelled from the spec: \<^verbatim>\<open>QF::gc\<close>, which is not in the source files (spec 4.2: if
  \<^verbatim>\<open>e.poolId\<close> is not 0, decrement \<^verbatim>\<open>refCtr\<close>; when it reaches zero, return the storage
  to pool \<^verbatim>\<open>poolId\<close>; static events are a no-op). The call itself is logged.
\<close>

definition QF_gc :: "evt_ptr \<Rightarrow> 'c::len QF_state \<Rightarrow> 'c QF_state" where
  "QF_gc e s =
     (let s0 = s\<lparr>calls := calls s @ [QF_GC e]\<rparr> in
      if poolId (evts s0 e) \<noteq> 0 then
        let r = refCtr (evts s0 e) - 1;
            s1 = s0\<lparr>evts := (evts s0)(e := (evts s0 e)\<lparr>refCtr := r\<rparr>)\<rparr>
        in if r = 0
           then s1\<lparr>pool_free := (pool_free s1)
                  (poolId (evts s1 e) := e # pool_free s1 (poolId (evts s1 e)))\<rparr>
           else s1
      else s0)"

text \<open>
  Modelled from the spec: \<^verbatim>\<open>QACTIVE_EQUEUE_WAIT_\<close>, a port macro that is not in the
  source files. In the cooperative kernel \<^verbatim>\<open>get_\<close> is only called on a queue that holds
  an event, and calling it on an empty queue is a contract violation that is fatal
  through the assertion mechanism (spec 4.3.3 and 7).
\<close>

definition QACTIVE_EQUEUE_WAIT :: "'c::len QF_state \<Rightarrow> error + 'c QF_state" where
  "QACTIVE_EQUEUE_WAIT s = (if m_frontEvt (m_eQueue s) \<noteq> 0 then Inr s else Inl (Q_onAssert 0))"

text \<open>
  \<^verbatim>\<open>QMActive::post_(e, margin)\<close>. The margin is a \<^verbatim>\<open>uint_fast16_t\<close>, of a width \<open>'f\<close> that
  the platform chooses; \<^verbatim>\<open>static_cast<QEQueueCtr>(margin)\<close> is \<open>ucast\<close>.
\<close>

definition QMActive_post :: "'c::len QF_state \<Rightarrow> evt_ptr \<Rightarrow> 'f::len word \<Rightarrow> error + (bool \<times> 'c QF_state)" where
  "QMActive_post s e margin =
     (if e = 0 then Inl (Q_onAssert 100)
      else
        let q = m_eQueue s; nFree = m_nFree q in
        if nFree > (ucast margin :: 'c word) then
          let s1 = (if poolId (evts s e) \<noteq> 0 then QF_EVT_REF_CTR_INC e s else s);
              nFree1 = nFree - 1;
              q1 = q\<lparr>m_nFree := nFree1\<rparr>;
              q2 = (if m_nMin q1 > nFree1 then q1\<lparr>m_nMin := nFree1\<rparr> else q1)
          in if m_frontEvt q2 = 0
             then Inr (True, s1\<lparr>m_eQueue := q2\<lparr>m_frontEvt := e\<rparr>,
                                 calls := calls s1 @ [EQUEUE_SIGNAL]\<rparr>)
             else
               let q3 = q2\<lparr>m_ring := (m_ring q2)(m_head q2 := e)\<rparr>;
                   q4 = (if m_head q3 = 0 then q3\<lparr>m_head := m_end q3\<rparr> else q3)
               in Inr (True, s1\<lparr>m_eQueue := q4\<lparr>m_head := m_head q4 - 1\<rparr>\<rparr>)
        else if margin = 0 then Inl (Q_onAssert 110)
        else Inr (False, QF_gc e s))"

text \<open>\<^verbatim>\<open>QMActive::postLIFO(e)\<close>. The assertion on \<^verbatim>\<open>nFree\<close> comes before the first read
  through \<^verbatim>\<open>e\<close>.\<close>

definition QMActive_postLIFO :: "'c::len QF_state \<Rightarrow> evt_ptr \<Rightarrow> error + 'c QF_state" where
  "QMActive_postLIFO s e =
     (let q = m_eQueue s; nFree = m_nFree q in
      if nFree = 0 then Inl (Q_onAssert 210)
      else if e = 0 then Inl NullDeref
      else
        let s1 = (if poolId (evts s e) \<noteq> 0 then QF_EVT_REF_CTR_INC e s else s);
            nFree1 = nFree - 1;
            q1 = q\<lparr>m_nFree := nFree1\<rparr>;
            q2 = (if m_nMin q1 > nFree1 then q1\<lparr>m_nMin := nFree1\<rparr> else q1);
            frontEvt = m_frontEvt q2;
            q3 = q2\<lparr>m_frontEvt := e\<rparr>
        in if frontEvt = 0
           then Inr (s1\<lparr>m_eQueue := q3, calls := calls s1 @ [EQUEUE_SIGNAL]\<rparr>)
           else
             let q4 = q3\<lparr>m_tail := m_tail q3 + 1\<rparr>;
                 q5 = (if m_tail q4 = m_end q4 then q4\<lparr>m_tail := 0\<rparr> else q4)
             in Inr (s1\<lparr>m_eQueue := q5\<lparr>m_ring := (m_ring q5)(m_tail q5 := frontEvt)\<rparr>\<rparr>))"

text \<open>
  \<^verbatim>\<open>QMActive::get_()\<close>. Assertion 310 compares \<^verbatim>\<open>nFree\<close> with \<^verbatim>\<open>m_end + 1\<close>; it is only
  evaluated when \<^verbatim>\<open>nFree > m_end\<close>, so \<^verbatim>\<open>m_end\<close> is not the largest counter value there
  and \<^verbatim>\<open>m_end + 1\<close> is the same with and without integer promotion.
\<close>

definition QMActive_get :: "'c::len QF_state \<Rightarrow> error + (evt_ptr \<times> 'c QF_state)" where
  "QMActive_get s =
     (case QACTIVE_EQUEUE_WAIT s of
        Inl err \<Rightarrow> Inl err
      | Inr s0 \<Rightarrow>
          let q = m_eQueue s0;
              e = m_frontEvt q;
              nFree = m_nFree q + 1;
              q1 = q\<lparr>m_nFree := nFree\<rparr>
          in if nFree \<le> m_end q1 then
               let q2 = q1\<lparr>m_frontEvt := m_ring q1 (m_tail q1)\<rparr>;
                   q3 = (if m_tail q2 = 0 then q2\<lparr>m_tail := m_end q2\<rparr> else q2)
               in Inr (e, s0\<lparr>m_eQueue := q3\<lparr>m_tail := m_tail q3 - 1\<rparr>\<rparr>)
             else
               let q2 = q1\<lparr>m_frontEvt := 0\<rparr> in
               if nFree = m_end q2 + 1
               then Inr (e, s0\<lparr>m_eQueue := q2, calls := calls s0 @ [EQUEUE_ONEMPTY]\<rparr>)
               else Inl (Q_onAssert 310))"

text \<open>
  \<^verbatim>\<open>QF::getQueueMin(prio)\<close>. The table \<^verbatim>\<open>active_\<close> maps a priority to the registered
  active object, here to its member \<^verbatim>\<open>m_eQueue\<close>, the only one the function reads
  (\<open>None\<close> is the null pointer); \<^verbatim>\<open>QF_MAX_ACTIVE\<close> is a configuration constant. The
  result is a \<^verbatim>\<open>uint_fast16_t\<close>, of width \<open>'f\<close>. The function returns the table it was
  given, so that what it leaves unchanged can be stated.
\<close>

definition QF_getQueueMin ::
  "nat \<Rightarrow> (nat \<Rightarrow> 'c::len QEQueue option) \<Rightarrow> nat
     \<Rightarrow> error + ('f::len word \<times> (nat \<Rightarrow> 'c QEQueue option))" where
  "QF_getQueueMin QF_MAX_ACTIVE active prio =
     (if prio \<le> QF_MAX_ACTIVE \<and> active prio \<noteq> None
      then Inr (ucast (m_nMin (the (active prio))), active)
      else Inl (Q_onAssert 400))"

section \<open>Priority sets (qpset.h)\<close>

text \<open>
  An element \<open>n\<close> of a priority set is a \<^verbatim>\<open>uint_fast8_t\<close>, here a natural number. The
  contract of the class is \<open>1 \<le> n\<close> and \<open>n \<le> QF_MAX_ACTIVE\<close>, which keeps every shift count
  \<open>n - 1\<close> or \<open>n - 33\<close> inside the 32-bit word. Outside the contract the C++ shift is
  undefined; the definitions below give some value there, and every statement about them
  is for elements inside the contract.
\<close>

text \<open>The form for \<^verbatim>\<open>QF_MAX_ACTIVE <= 32\<close>: one 32-bit word.\<close>

record QPSet32 =
  m_bits :: "32 word"

definition setEmpty32 :: "QPSet32 \<Rightarrow> QPSet32" where
  "setEmpty32 s = s\<lparr>m_bits := 0\<rparr>"

definition isEmpty32 :: "QPSet32 \<Rightarrow> bool" where
  "isEmpty32 s = (m_bits s = 0)"

definition notEmpty32 :: "QPSet32 \<Rightarrow> bool" where
  "notEmpty32 s = (m_bits s \<noteq> 0)"

definition hasElement32 :: "QPSet32 \<Rightarrow> nat \<Rightarrow> bool" where
  "hasElement32 s n = (m_bits s AND push_bit (n - 1) 1 \<noteq> 0)"

definition insert32 :: "QPSet32 \<Rightarrow> nat \<Rightarrow> QPSet32" where
  "insert32 s n = s\<lparr>m_bits := m_bits s OR push_bit (n - 1) 1\<rparr>"

definition remove32 :: "QPSet32 \<Rightarrow> nat \<Rightarrow> QPSet32" where
  "remove32 s n = s\<lparr>m_bits := m_bits s AND NOT (push_bit (n - 1) 1)\<rparr>"

text \<open>The form for \<^verbatim>\<open>QF_MAX_ACTIVE > 32\<close>: \<^verbatim>\<open>m_bits[0]\<close> and \<^verbatim>\<open>m_bits[1]\<close>.\<close>

record QPSet64 =
  m_bits0 :: "32 word"
  m_bits1 :: "32 word"

definition setEmpty64 :: "QPSet64 \<Rightarrow> QPSet64" where
  "setEmpty64 s = s\<lparr>m_bits0 := 0, m_bits1 := 0\<rparr>"

definition isEmpty64 :: "QPSet64 \<Rightarrow> bool" where
  "isEmpty64 s = (if m_bits0 s = 0 then m_bits1 s = 0 else False)"

definition notEmpty64 :: "QPSet64 \<Rightarrow> bool" where
  "notEmpty64 s = (if m_bits0 s \<noteq> 0 then True else m_bits1 s \<noteq> 0)"

definition hasElement64 :: "QPSet64 \<Rightarrow> nat \<Rightarrow> bool" where
  "hasElement64 s n =
     (if n \<le> 32 then m_bits0 s AND push_bit (n - 1) 1 \<noteq> 0
      else m_bits1 s AND push_bit (n - 33) 1 \<noteq> 0)"

definition insert64 :: "QPSet64 \<Rightarrow> nat \<Rightarrow> QPSet64" where
  "insert64 s n =
     (if n \<le> 32 then s\<lparr>m_bits0 := m_bits0 s OR push_bit (n - 1) 1\<rparr>
      else s\<lparr>m_bits1 := m_bits1 s OR push_bit (n - 33) 1\<rparr>)"

definition remove64 :: "QPSet64 \<Rightarrow> nat \<Rightarrow> QPSet64" where
  "remove64 s n =
     (if n \<le> 32 then s\<lparr>m_bits0 := m_bits0 s AND NOT (push_bit (n - 1) 1)\<rparr>
      else s\<lparr>m_bits1 := m_bits1 s AND NOT (push_bit (n - 33) 1)\<rparr>)"

text \<open>
  Modelled from the spec: \<^verbatim>\<open>QF_LOG2\<close>, a macro that qpset.h uses and does not define
  (spec 4.1: the 1-based highest set bit, \<open>log2(0) = 0\<close> and
  \<open>log2(x) = 1 + floor(log2(x))\<close> for \<open>x > 0\<close>).
\<close>

definition QF_LOG2 :: "32 word \<Rightarrow> nat" where
  "QF_LOG2 x = floorlog 2 (unat x)"

text \<open>\<^verbatim>\<open>findMax()\<close>, in the inline form that each class has when \<^verbatim>\<open>QF_LOG2\<close> is defined.\<close>

definition findMax32 :: "QPSet32 \<Rightarrow> nat" where
  "findMax32 s = QF_LOG2 (m_bits s)"

definition findMax64 :: "QPSet64 \<Rightarrow> nat" where
  "findMax64 s = (if m_bits1 s \<noteq> 0 then QF_LOG2 (m_bits1 s) + 32 else QF_LOG2 (m_bits0 s))"

section \<open>Sequences of operations\<close>

text \<open>
  A caller of the queue issues FIFO posts, LIFO posts and gets. \<open>step\<close> runs one of them,
  \<open>run\<close> runs a list of them and stops at the first failed assertion; its result is the
  state after every operation together with what that operation returned.
\<close>

datatype 'm op = POST evt_ptr 'm | POST_LIFO evt_ptr | GET

datatype res = Posted bool | PostedLIFO | Got evt_ptr

fun step :: "'c::len QF_state \<Rightarrow> 'f::len word op \<Rightarrow> error + (res \<times> 'c QF_state)" where
  "step s (POST e margin) =
     (case QMActive_post s e margin of Inl err \<Rightarrow> Inl err | Inr (b, s') \<Rightarrow> Inr (Posted b, s'))"
| "step s (POST_LIFO e) =
     (case QMActive_postLIFO s e of Inl err \<Rightarrow> Inl err | Inr s' \<Rightarrow> Inr (PostedLIFO, s'))"
| "step s GET =
     (case QMActive_get s of Inl err \<Rightarrow> Inl err | Inr (e, s') \<Rightarrow> Inr (Got e, s'))"

fun run :: "'c::len QF_state \<Rightarrow> 'f::len word op list \<Rightarrow> error + (res \<times> 'c QF_state) list" where
  "run s [] = Inr []"
| "run s (x # xs) =
     (case step s x of
        Inl err \<Rightarrow> Inl err
      | Inr (r, s') \<Rightarrow> (case run s' xs of Inl err \<Rightarrow> Inl err | Inr tr \<Rightarrow> Inr ((r, s') # tr)))"

text \<open>The state at the end of a run that started in \<open>s\<close>.\<close>

definition final :: "'c::len QF_state \<Rightarrow> (res \<times> 'c QF_state) list \<Rightarrow> 'c QF_state" where
  "final s tr = (if tr = [] then s else snd (last tr))"

text \<open>
  The number of events that the queue holds changes by what an operation returned: an
  accepted post adds one, a rejected post adds none, a get takes one away.
  \<open>steady_points n tr\<close> pairs every state of the run with the number of events held then,
  counted from \<open>n\<close> events at the start.
\<close>

fun change :: "res \<Rightarrow> int" where
  "change (Posted b) = (if b then 1 else 0)"
| "change PostedLIFO = 1"
| "change (Got e) = - 1"

fun steady_points :: "int \<Rightarrow> (res \<times> 'c::len QF_state) list \<Rightarrow> (int \<times> 'c QF_state) list" where
  "steady_points n [] = []"
| "steady_points n ((r, s) # tr) = (n + change r, s) # steady_points (n + change r) tr"

section \<open>The queue as a list of events\<close>

text \<open>
  Both indices of the ring move downwards, wrapping from 0 to \<^verbatim>\<open>m_end - 1\<close>: \<open>ring_prev\<close>
  is the wrap-then-decrement of \<^verbatim>\<open>post_\<close> and \<^verbatim>\<open>get_\<close>, \<open>ring_next\<close> the
  increment-then-wrap of \<^verbatim>\<open>postLIFO\<close>. \<open>ring_list ring en t n\<close> reads \<open>n\<close> cells of the ring
  in the order in which \<^verbatim>\<open>get_\<close> will take them, from the tail \<open>t\<close> on.
\<close>

definition ring_prev :: "'c::len word \<Rightarrow> 'c word \<Rightarrow> 'c word" where
  "ring_prev en i = (if i = 0 then en else i) - 1"

definition ring_next :: "'c::len word \<Rightarrow> 'c word \<Rightarrow> 'c word" where
  "ring_next en t = (if t + 1 = en then 0 else t + 1)"

definition ring_list ::
  "('c::len word \<Rightarrow> evt_ptr) \<Rightarrow> 'c word \<Rightarrow> 'c word \<Rightarrow> nat \<Rightarrow> evt_ptr list" where
  "ring_list ring en t n = map (\<lambda>i. ring ((ring_prev en ^^ i) t)) [0..<n]"

text \<open>
  \<open>holds q xs\<close>: the queue \<open>q\<close> holds exactly the events \<open>xs\<close>, in the order of delivery.
  The first of them is in the front slot and the others are in the ring between tail and
  head; no held event is the null pointer; the free counter counts the unused slots,
  the front slot included; the capacity plus one fits the counter type.
\<close>

definition holds :: "'c::len QEQueue \<Rightarrow> evt_ptr list \<Rightarrow> bool" where
  "holds q xs \<longleftrightarrow>
     unat (m_end q) + 1 < 2 ^ LENGTH('c) \<and>
     0 \<notin> set xs \<and>
     unat (m_nFree q) + length xs = unat (m_end q) + 1 \<and>
     (m_end q = 0 \<or> m_tail q < m_end q) \<and>
     m_head q = (ring_prev (m_end q) ^^ (length xs - 1)) (m_tail q) \<and>
     m_frontEvt q = (if xs = [] then 0 else hd xs) \<and>
     tl xs = ring_list (m_ring q) (m_end q) (m_tail q) (length xs - 1)"

text \<open>
  Modelled from the spec: the state of a queue right after construction; the function
  that initialises a queue is not in the source files (spec 3: the front slot is empty,
  \<^verbatim>\<open>nFree\<close> is the capacity plus one when the queue is completely empty, and \<^verbatim>\<open>nMin\<close> is
  the minimum of \<^verbatim>\<open>nFree\<close> observed since construction, so it starts as \<^verbatim>\<open>nFree\<close>).
  Head and tail start at the same cell of the ring, and the capacity plus one fits the
  counter type.
\<close>

definition fresh :: "'c::len QEQueue \<Rightarrow> bool" where
  "fresh q \<longleftrightarrow>
     unat (m_end q) + 1 < 2 ^ LENGTH('c) \<and>
     m_frontEvt q = 0 \<and> m_head q = m_tail q \<and> (m_end q = 0 \<or> m_tail q < m_end q) \<and>
     m_nFree q = m_end q + 1 \<and> m_nMin q = m_nFree q"

section \<open>The priority set as a set of numbers\<close>

datatype set_op = Insert nat | Remove nat

fun element :: "set_op \<Rightarrow> nat" where
  "element (Insert n) = n"
| "element (Remove n) = n"

fun apply32 :: "QPSet32 \<Rightarrow> set_op \<Rightarrow> QPSet32" where
  "apply32 s (Insert n) = insert32 s n"
| "apply32 s (Remove n) = remove32 s n"

fun apply64 :: "QPSet64 \<Rightarrow> set_op \<Rightarrow> QPSet64" where
  "apply64 s (Insert n) = insert64 s n"
| "apply64 s (Remove n) = remove64 s n"

text \<open>The abstract set that a sequence of inserts and removes builds.\<close>

fun apply_abstract :: "nat set \<Rightarrow> set_op \<Rightarrow> nat set" where
  "apply_abstract A (Insert n) = insert n A"
| "apply_abstract A (Remove n) = A - {n}"

definition largest :: "nat set \<Rightarrow> nat" where
  "largest A = (if A = {} then 0 else Max A)"

text \<open>The numbers that the two words of the 64-element form stand for.\<close>

definition members64 :: "QPSet64 \<Rightarrow> nat set" where
  "members64 s =
     Suc ` {k. bit (m_bits0 s) k} \<union> (\<lambda>k. k + 33) ` {k. bit (m_bits1 s) k}"

section \<open>Concrete states\<close>

text \<open>
  An event memory with static events everywhere and one dynamic event, from pool 1, at
  address 7.
\<close>

definition sample_evts :: "evt_ptr \<Rightarrow> QEvt" where
  "sample_evts =
     (\<lambda>p. \<lparr>sig = 0, poolId = 0, refCtr = 0\<rparr>)(7 := \<lparr>sig = 5, poolId = 1, refCtr = 0\<rparr>)"

text \<open>
  Queues with 8-bit counters and a ring of 4 cells: a freshly constructed one, one that
  holds the events 1 (front slot) and 2 (ring), one that holds the events 1, 2, 3, 4 and has
  one free slot, and a full one.
\<close>

definition empty4 :: "8 QF_state" where
  "empty4 =
     \<lparr>m_eQueue = \<lparr>m_frontEvt = 0, m_ring = (\<lambda>i. 0), m_end = 4, m_head = 0, m_tail = 0,
                   m_nFree = 5, m_nMin = 5\<rparr>,
      evts = sample_evts, pool_free = (\<lambda>p. []), calls = []\<rparr>"

definition two_held :: "8 QF_state" where
  "two_held =
     \<lparr>m_eQueue = \<lparr>m_frontEvt = 1, m_ring = (\<lambda>i. 0)(0 := 2), m_end = 4, m_head = 3, m_tail = 0,
                   m_nFree = 3, m_nMin = 3\<rparr>,
      evts = sample_evts, pool_free = (\<lambda>p. []), calls = []\<rparr>"

definition near_full :: "8 QF_state" where
  "near_full =
     \<lparr>m_eQueue = \<lparr>m_frontEvt = 1, m_ring = (\<lambda>i. 0)(0 := 2, 3 := 3, 2 := 4), m_end = 4,
                   m_head = 1, m_tail = 0, m_nFree = 1, m_nMin = 1\<rparr>,
      evts = sample_evts, pool_free = (\<lambda>p. []), calls = []\<rparr>"

definition full4 :: "8 QF_state" where
  "full4 =
     \<lparr>m_eQueue = \<lparr>m_frontEvt = 1, m_ring = (\<lambda>i. 0)(0 := 2, 3 := 3, 2 := 4, 1 := 5), m_end = 4,
                   m_head = 0, m_tail = 0, m_nFree = 0, m_nMin = 0\<rparr>,
      evts = sample_evts, pool_free = (\<lambda>p. []), calls = []\<rparr>"

section \<open>Bits of the priority set\<close>

lemma hasElement32_bit: "hasElement32 s n = bit (m_bits s) (n - 1)"
  by (simp add: hasElement32_def bit_iff_and_push_bit_not_eq_0)

lemma bit_insert32: "bit (m_bits (insert32 s n)) k = (bit (m_bits s) k \<or> (k = n - 1 \<and> k < 32))"
  by (auto simp add: insert32_def bit_or_iff bit_exp_iff)

lemma bit_remove32: "bit (m_bits (remove32 s n)) k = (bit (m_bits s) k \<and> k \<noteq> n - 1)"
  by (auto simp add: remove32_def bit_and_iff bit_not_iff bit_exp_iff dest: bit_imp_possible_bit)

lemma QF_LOG2_0: "QF_LOG2 0 = 0"
  by (simp add: QF_LOG2_def floorlog_eq_zero_iff)

lemma QF_LOG2_bit:
  assumes "x \<noteq> 0"
  shows "0 < QF_LOG2 x \<and> bit x (QF_LOG2 x - 1) \<and> (\<forall>k. bit x k \<longrightarrow> k < QF_LOG2 x)"
proof -
  let ?L = "floorlog 2 (unat x)"
  have pos: "0 < unat x" using assms by (simp add: unat_gt_0)
  from floorlog_bounds [OF pos, of 2]
  have lo: "2 ^ (?L - 1) \<le> unat x" and hi: "unat x < 2 ^ ?L" by simp_all
  have L: "0 < ?L" using pos by (simp add: floorlog_def)
  have "unat x div 2 ^ (?L - 1) = 1"
  proof -
    have "unat x < 2 * 2 ^ (?L - 1)" using hi L by (cases ?L) simp_all
    with lo show ?thesis
      by (intro div_nat_eqI) simp_all
  qed
  then have b: "bit (unat x) (?L - 1)" by (simp add: bit_iff_odd)
  have u: "\<not> bit (unat x) k" if "?L \<le> k" for k
  proof -
    have "unat x < 2 ^ k" using hi that
      by (meson less_le_trans one_le_numeral power_increasing)
    then show ?thesis by (simp add: bit_iff_odd)
  qed
  have b': "bit x (?L - 1)" using b by (simp add: bit_unsigned_iff)
  have u': "k < ?L" if "bit x k" for k
  proof (rule ccontr)
    assume "\<not> k < ?L"
    then have "\<not> bit (unat x) k" using u [of k] by simp
    with that show False
      using bit_imp_possible_bit [OF that] by (simp add: bit_unsigned_iff)
  qed
  show ?thesis
    using L b' u' by (simp add: QF_LOG2_def)
qed

lemma finite_bits: "finite {k. bit (x::32 word) k}"
proof (rule finite_subset)
  show "{k. bit x k} \<subseteq> {..<32}" by (auto dest: bit_imp_le_length)
qed simp

lemma largest_bits: "largest (Suc ` {k. bit (x::32 word) k}) = QF_LOG2 x"
proof (cases "x = 0")
  case True
  then show ?thesis by (simp add: largest_def QF_LOG2_0)
next
  case False
  note h = QF_LOG2_bit [OF False]
  let ?A = "Suc ` {k. bit x k}"
  have fin: "finite ?A" using finite_bits by simp
  have mem: "QF_LOG2 x \<in> ?A"
  proof -
    have "QF_LOG2 x = Suc (QF_LOG2 x - 1)" using h by simp
    moreover have "QF_LOG2 x - 1 \<in> {k. bit x k}" using h by simp
    ultimately show ?thesis by (metis imageI)
  qed
  have ub: "n \<le> QF_LOG2 x" if "n \<in> ?A" for n
    using that h by auto
  have "Max ?A = QF_LOG2 x"
    by (rule Max_eqI) (use fin mem ub in auto)
  then show ?thesis using mem by (auto simp: largest_def)
qed

lemma bits_zero: "{k. bit (0::32 word) k} = {}"
  by simp

lemma bits_insert32:
  assumes "1 \<le> n" "n \<le> 32"
  shows "Suc ` {k. bit (m_bits (insert32 s n)) k} = insert n (Suc ` {k. bit (m_bits s) k})"
proof -
  have "{k. bit (m_bits (insert32 s n)) k} = insert (n - 1) {k. bit (m_bits s) k}"
    using assms by (auto simp: bit_insert32)
  moreover obtain m where n: "n = Suc m" using assms by (cases n) simp_all
  ultimately show ?thesis by simp
qed

lemma bits_remove32:
  assumes "1 \<le> n"
  shows "Suc ` {k. bit (m_bits (remove32 s n)) k} = Suc ` {k. bit (m_bits s) k} - {n}"
proof -
  have "{k. bit (m_bits (remove32 s n)) k} = {k. bit (m_bits s) k} - {n - 1}"
    by (auto simp: bit_remove32)
  moreover obtain m where n: "n = Suc m" using assms by (cases n) simp_all
  ultimately show ?thesis by (simp add: image_set_diff)
qed

lemma run32_abstract:
  assumes "\<forall>x \<in> set ops. 1 \<le> element x \<and> element x \<le> 32"
  shows "Suc ` {k. bit (m_bits (foldl apply32 (setEmpty32 s) ops)) k} = foldl apply_abstract {} ops"
  using assms
proof (induction ops rule: rev_induct)
  case Nil
  then show ?case by (simp add: setEmpty32_def)
next
  case (snoc x xs)
  then show ?case
    by (cases x) (simp_all add: bits_insert32 bits_remove32)
qed

lemma hasElement32_abstract:
  assumes "1 \<le> n"
  shows "hasElement32 s n = (n \<in> Suc ` {k. bit (m_bits s) k})"
proof -
  obtain m where n: "n = Suc m" using assms by (cases n) simp_all
  show ?thesis unfolding n hasElement32_bit by (simp add: image_iff)
qed

lemma members64_insert:
  assumes "1 \<le> n" "n \<le> 64"
  shows "members64 (insert64 s n) = insert n (members64 s)"
proof (cases "n \<le> 32")
  case True
  then obtain m where n: "n = Suc m" and m: "m < 32" using assms by (cases n) simp_all
  have "{k. bit (m_bits0 s OR push_bit m 1) k} = insert m {k. bit (m_bits0 s) k}"
    using m by (auto simp: bit_or_iff bit_exp_iff)
  then show ?thesis using True by (simp add: members64_def insert64_def n)
next
  case False
  define m where "m = n - 33"
  have n: "n = m + 33" and m: "m < 32" using False assms by (simp_all add: m_def)
  have "{k. bit (m_bits1 s OR push_bit m 1) k} = insert m {k. bit (m_bits1 s) k}"
    using m by (auto simp: bit_or_iff bit_exp_iff)
  then show ?thesis using False by (simp add: members64_def insert64_def n)
qed

lemma members64_remove:
  assumes "1 \<le> n" "n \<le> 64"
  shows "members64 (remove64 s n) = members64 s - {n}"
proof (cases "n \<le> 32")
  case True
  then obtain m where n: "n = Suc m" and m: "m < 32" using assms by (cases n) simp_all
  have "{k. bit (m_bits0 s AND NOT (push_bit m 1)) k} = {k. bit (m_bits0 s) k} - {m}"
    by (auto simp: bit_and_iff bit_not_iff bit_exp_iff dest: bit_imp_possible_bit)
  moreover have "Suc m \<notin> (\<lambda>k. k + 33) ` {k. bit (m_bits1 s) k}"
    using m by auto
  ultimately show ?thesis using True
    by (simp add: members64_def remove64_def n image_set_diff Un_Diff)
next
  case False
  define m where "m = n - 33"
  have n: "n = m + 33" and m: "m < 32" using False assms by (simp_all add: m_def)
  have "{k. bit (m_bits1 s AND NOT (push_bit m 1)) k} = {k. bit (m_bits1 s) k} - {m}"
    by (auto simp: bit_and_iff bit_not_iff bit_exp_iff dest: bit_imp_possible_bit)
  moreover have "m + 33 \<notin> Suc ` {k. bit (m_bits0 s) k}"
    by (auto dest: bit_imp_le_length)
  moreover have "inj (\<lambda>k::nat. k + 33)" by (simp add: inj_on_def)
  ultimately show ?thesis using False
    by (simp add: members64_def remove64_def n image_set_diff Un_Diff)
qed

lemma run64_abstract:
  assumes "\<forall>x \<in> set ops. 1 \<le> element x \<and> element x \<le> 64"
  shows "members64 (foldl apply64 (setEmpty64 s) ops) = foldl apply_abstract {} ops"
  using assms
proof (induction ops rule: rev_induct)
  case Nil
  then show ?case by (simp add: setEmpty64_def members64_def)
next
  case (snoc x xs)
  then show ?case
    by (cases x) (simp_all add: members64_insert members64_remove)
qed

lemma hasElement64_abstract:
  assumes "1 \<le> n"
  shows "hasElement64 s n = (n \<in> members64 s)"
proof (cases "n \<le> 32")
  case True
  then obtain m where n: "n = Suc m" and m: "m < 32" using assms by (cases n) simp_all
  have "Suc m \<notin> (\<lambda>k. k + 33) ` {k. bit (m_bits1 s) k}"
    using m by auto
  then show ?thesis using True
    by (simp add: hasElement64_def members64_def n and_exp_eq_0_iff_not_bit image_iff)
next
  case False
  define m where "m = n - 33"
  have n: "n = m + 33" using False by (simp add: m_def)
  have "m + 33 \<notin> Suc ` {k. bit (m_bits0 s) k}"
    by (auto dest: bit_imp_le_length)
  then show ?thesis using False
    by (simp add: hasElement64_def members64_def n and_exp_eq_0_iff_not_bit image_iff)
qed

lemma findMax64_largest: "findMax64 s = largest (members64 s)"
proof (cases "m_bits1 s = 0")
  case True
  then show ?thesis
    by (simp add: findMax64_def members64_def largest_bits)
next
  case False
  note h = QF_LOG2_bit [OF False]
  let ?L = "QF_LOG2 (m_bits1 s)"
  have fin: "finite (members64 s)" by (simp add: members64_def finite_bits)
  have mem: "?L + 32 \<in> members64 s"
  proof -
    have "?L + 32 = (?L - 1) + 33" using h by simp
    moreover have "?L - 1 \<in> {k. bit (m_bits1 s) k}" using h by simp
    ultimately show ?thesis unfolding members64_def by (metis UnI2 imageI)
  qed
  have ub: "n \<le> ?L + 32" if "n \<in> members64 s" for n
    using that h by (auto simp: members64_def dest: bit_imp_le_length)
  have "Max (members64 s) = ?L + 32"
    by (rule Max_eqI) (use fin mem ub in auto)
  then show ?thesis using mem False by (auto simp: largest_def findMax64_def)
qed

section \<open>The priority set agrees with the abstract set\<close>

text \<open>
  Claim C7. Take any sequence of inserts and removes of elements in 1..\<^verbatim>\<open>QF_MAX_ACTIVE\<close>,
  applied to the empty priority set. Then \<^verbatim>\<open>hasElement(n)\<close> holds exactly when \<open>n\<close> is in the
  abstract set that the sequence builds, and \<^verbatim>\<open>findMax()\<close> returns the largest element of
  that set, or 0 when it is empty; this holds for the one-word form
  (\<^verbatim>\<open>QF_MAX_ACTIVE <= 32\<close>) and for the two-word form (\<^verbatim>\<open>QF_MAX_ACTIVE > 32\<close>). In the
  two-word form \<^verbatim>\<open>findMax()\<close> looks at the high word first: it returns
  \<^verbatim>\<open>QF_LOG2(high) + 32\<close> when the high word is not 0 and \<^verbatim>\<open>QF_LOG2(low)\<close> otherwise.
\<close>

theorem priority_set_agrees_with_abstract_set:
  assumes "\<forall>x \<in> set ops. 1 \<le> element x \<and> element x \<le> QF_MAX_ACTIVE"
  shows "(QF_MAX_ACTIVE \<le> 32 \<longrightarrow>
            (\<forall>n. 1 \<le> n \<and> n \<le> QF_MAX_ACTIVE \<longrightarrow>
               hasElement32 (foldl apply32 (setEmpty32 s) ops) n =
                 (n \<in> foldl apply_abstract {} ops)) \<and>
            findMax32 (foldl apply32 (setEmpty32 s) ops) = largest (foldl apply_abstract {} ops)) \<and>
         (32 < QF_MAX_ACTIVE \<and> QF_MAX_ACTIVE \<le> 64 \<longrightarrow>
            (\<forall>n. 1 \<le> n \<and> n \<le> QF_MAX_ACTIVE \<longrightarrow>
               hasElement64 (foldl apply64 (setEmpty64 t) ops) n =
                 (n \<in> foldl apply_abstract {} ops)) \<and>
            findMax64 (foldl apply64 (setEmpty64 t) ops) = largest (foldl apply_abstract {} ops) \<and>
            findMax64 (foldl apply64 (setEmpty64 t) ops) =
              (if m_bits1 (foldl apply64 (setEmpty64 t) ops) \<noteq> 0
               then QF_LOG2 (m_bits1 (foldl apply64 (setEmpty64 t) ops)) + 32
               else QF_LOG2 (m_bits0 (foldl apply64 (setEmpty64 t) ops))))"
proof (intro conjI impI allI)
  assume m: "QF_MAX_ACTIVE \<le> 32"
  then have r: "\<forall>x \<in> set ops. 1 \<le> element x \<and> element x \<le> 32"
    using assms by auto
  note a = run32_abstract [OF r, of s]
  show "hasElement32 (foldl apply32 (setEmpty32 s) ops) n = (n \<in> foldl apply_abstract {} ops)"
    if "1 \<le> n \<and> n \<le> QF_MAX_ACTIVE" for n
    using that hasElement32_abstract [of n "foldl apply32 (setEmpty32 s) ops"] a by simp
  show "findMax32 (foldl apply32 (setEmpty32 s) ops) = largest (foldl apply_abstract {} ops)"
    unfolding findMax32_def a [symmetric] by (rule largest_bits [symmetric])
next
  assume m: "32 < QF_MAX_ACTIVE \<and> QF_MAX_ACTIVE \<le> 64"
  then have r: "\<forall>x \<in> set ops. 1 \<le> element x \<and> element x \<le> 64"
    using assms by auto
  note a = run64_abstract [OF r, of t]
  show "hasElement64 (foldl apply64 (setEmpty64 t) ops) n = (n \<in> foldl apply_abstract {} ops)"
    if "1 \<le> n \<and> n \<le> QF_MAX_ACTIVE" for n
    using that hasElement64_abstract [of n "foldl apply64 (setEmpty64 t) ops"] a by simp
  show "findMax64 (foldl apply64 (setEmpty64 t) ops) = largest (foldl apply_abstract {} ops)"
    unfolding a [symmetric] by (rule findMax64_largest)
  show "findMax64 (foldl apply64 (setEmpty64 t) ops) =
          (if m_bits1 (foldl apply64 (setEmpty64 t) ops) \<noteq> 0
           then QF_LOG2 (m_bits1 (foldl apply64 (setEmpty64 t) ops)) + 32
           else QF_LOG2 (m_bits0 (foldl apply64 (setEmpty64 t) ops)))"
    by (simp add: findMax64_def)
qed

theorem priority_set_agrees_with_abstract_set_witness:
  "findMax32 (foldl apply32 (setEmpty32 \<lparr>m_bits = 255\<rparr>) [Insert 3, Insert 5, Remove 5]) = 3 \<and>
   hasElement32 (foldl apply32 (setEmpty32 \<lparr>m_bits = 255\<rparr>) [Insert 3, Insert 5, Remove 5]) 3 = True \<and>
   hasElement32 (foldl apply32 (setEmpty32 \<lparr>m_bits = 255\<rparr>) [Insert 3, Insert 5, Remove 5]) 5 = False \<and>
   findMax64 (foldl apply64 (setEmpty64 \<lparr>m_bits0 = 1, m_bits1 = 1\<rparr>) [Insert 33, Insert 1]) = 33 \<and>
   hasElement64 (foldl apply64 (setEmpty64 \<lparr>m_bits0 = 1, m_bits1 = 1\<rparr>) [Insert 33, Insert 1]) 1 = True \<and>
   findMax64 (foldl apply64 (setEmpty64 \<lparr>m_bits0 = 1, m_bits1 = 1\<rparr>)
     [Insert 33, Insert 1, Remove 33, Remove 1]) = 0"
proof -
  have a: "\<forall>x \<in> set [Insert 3, Insert 5, Remove 5]. 1 \<le> element x \<and> element x \<le> 8"
    and b: "\<forall>x \<in> set [Insert 33, Insert 1]. 1 \<le> element x \<and> element x \<le> 64"
    and c: "\<forall>x \<in> set [Insert 33, Insert 1, Remove 33, Remove 1]. 1 \<le> element x \<and> element x \<le> 64"
    by simp_all
  have l: "foldl apply_abstract {} [Insert 3, Insert 5, Remove 5] = {3}"
    "foldl apply_abstract {} [Insert 33, Insert 1] = {1, 33}"
    "foldl apply_abstract {} [Insert 33, Insert 1, Remove 33, Remove 1] = {}"
    by auto
  from priority_set_agrees_with_abstract_set [OF a, of "\<lparr>m_bits = 255\<rparr>"]
    priority_set_agrees_with_abstract_set [OF b, of _ "\<lparr>m_bits0 = 1, m_bits1 = 1\<rparr>"]
    priority_set_agrees_with_abstract_set [OF c, of _ "\<lparr>m_bits0 = 1, m_bits1 = 1\<rparr>"]
  show ?thesis unfolding l by (simp add: largest_def)
qed

section \<open>Emptiness tests of the priority set\<close>

text \<open>
  Claim C10. In both forms of the priority set, the one-word form and the two-word
  form, \<^verbatim>\<open>notEmpty()\<close> returns exactly the negation of \<^verbatim>\<open>isEmpty()\<close>, in every state.
\<close>

theorem notEmpty_is_negation_of_isEmpty:
  "notEmpty32 s = (\<not> isEmpty32 s) \<and> notEmpty64 t = (\<not> isEmpty64 t)"
  by (simp add: notEmpty32_def isEmpty32_def notEmpty64_def isEmpty64_def)

section \<open>Ring indices\<close>

lemma ring_prev_less: "t < en \<Longrightarrow> ring_prev en t < en"
  unfolding ring_prev_def by unat_arith

lemma nat_prev_mod: "0 < a \<Longrightarrow> a < N \<Longrightarrow> (a + (N - 1)) mod N = a - (1::nat)"
proof -
  assume a: "0 < a" "a < N"
  then have "a + (N - 1) = (a - 1) + N" by simp
  then have "(a + (N - 1)) mod N = (a - 1) mod N" by (simp only: mod_add_self2)
  with a show ?thesis by simp
qed

lemma unat_ring_prev:
  assumes "t < en"
  shows "unat (ring_prev en t) = (unat t + (unat en - 1)) mod unat en"
proof (cases "t = 0")
  case True
  have "en \<noteq> 0" using assms by auto
  then have "unat (en - 1) = unat en - 1" by (rule unat_minus_one)
  moreover have "0 < unat en" using \<open>en \<noteq> 0\<close> by (simp add: unat_gt_0)
  ultimately show ?thesis using True by (simp add: ring_prev_def)
next
  case False
  then have "unat (t - 1) = unat t - 1" by (rule unat_minus_one)
  moreover have "0 < unat t" using False by (simp add: unat_gt_0)
  moreover have "unat t < unat en" using assms by (simp add: word_less_nat_alt)
  ultimately show ?thesis
    using False nat_prev_mod [of "unat t" "unat en"] by (simp add: ring_prev_def)
qed

lemma funpow_ring_prev_less: "t < en \<Longrightarrow> (ring_prev en ^^ k) t < en"
  by (induction k) (simp_all add: ring_prev_less)

lemma funpow_ring_prev_unat:
  assumes "t < en"
  shows "(unat ((ring_prev en ^^ k) t) + k) mod unat en = unat t"
proof (induction k)
  case 0
  show ?case using assms by (simp add: word_less_nat_alt)
next
  case (Suc k)
  let ?v = "(ring_prev en ^^ k) t"
  have v: "?v < en" using assms by (rule funpow_ring_prev_less)
  have N: "0 < unat en" using assms by (metis not_less_zero unat_gt_0 word_less_nat_alt not_gr_zero)
  have "(unat (ring_prev en ?v) + Suc k) mod unat en
          = ((unat ?v + (unat en - 1)) mod unat en + Suc k) mod unat en"
    by (simp only: unat_ring_prev [OF v])
  also have "\<dots> = (unat ?v + (unat en - 1) + Suc k) mod unat en"
    by (simp only: mod_add_left_eq)
  also have "unat ?v + (unat en - 1) + Suc k = (unat ?v + k) + unat en"
    using N by simp
  also have "(unat ?v + k + unat en) mod unat en = (unat ?v + k) mod unat en"
    by (simp only: mod_add_self2)
  finally show ?case using Suc by simp
qed

lemma funpow_ring_prev_distinct:
  assumes "t < en" "i < j" "j < unat en"
  shows "(ring_prev en ^^ i) t \<noteq> (ring_prev en ^^ j) t"
proof
  assume eq: "(ring_prev en ^^ i) t = (ring_prev en ^^ j) t"
  let ?v = "unat ((ring_prev en ^^ j) t)"
  have "(?v + i) mod unat en = (?v + j) mod unat en"
    using funpow_ring_prev_unat [OF assms(1), of i] funpow_ring_prev_unat [OF assms(1), of j] eq
    by simp
  then have "unat en dvd (?v + j) - (?v + i)"
    using assms(2) by (metis add_le_cancel_left less_imp_le_nat mod_eq_dvd_iff_nat)
  then have "unat en dvd j - i" by simp
  moreover have "0 < j - i" "j - i < unat en" using assms by simp_all
  ultimately show False by (meson nat_dvd_not_less)
qed

lemma ring_next_less: "t < en \<Longrightarrow> ring_next en t < en"
  unfolding ring_next_def by unat_arith

lemma ring_prev_next: "t < en \<Longrightarrow> ring_prev en (ring_next en t) = t"
  unfolding ring_next_def ring_prev_def by unat_arith

lemma ring_list_0: "ring_list ring en t 0 = []"
  by (simp add: ring_list_def)

lemma ring_list_update:
  "(\<And>i. i < n \<Longrightarrow> (ring_prev en ^^ i) t \<noteq> p) \<Longrightarrow>
     ring_list (ring(p := v)) en t n = ring_list ring en t n"
  by (simp add: ring_list_def)

lemma ring_list_snoc:
  "ring_list ring en t (Suc n) = ring_list ring en t n @ [ring ((ring_prev en ^^ n) t)]"
  by (simp add: ring_list_def)

lemma ring_list_Suc:
  "ring_list ring en t (Suc n) = ring t # ring_list ring en (ring_prev en t) n"
proof -
  have "[0..<Suc n] = 0 # map Suc [0..<n]"
    by (simp add: upt_conv_Cons map_Suc_upt del: upt_Suc)
  then show ?thesis
    by (simp add: ring_list_def funpow_swap1 comp_def del: upt_Suc)
qed

lemma unat_pred: "(a::'c::len word) < x \<Longrightarrow> Suc (unat (x - 1)) = unat x"
  by unat_arith

lemma post_queue:
  fixes s :: "'c::len QF_state" and margin :: "'f::len word"
  assumes "QMActive_post s e margin = Inr (True, s')"
  shows "m_eQueue s' = 
           (m_eQueue s)\<lparr>m_nFree := m_nFree (m_eQueue s) - 1,
             m_nMin := (if m_nFree (m_eQueue s) - 1 < m_nMin (m_eQueue s) then m_nFree (m_eQueue s) - 1 else m_nMin (m_eQueue s)),
             m_frontEvt := (if m_frontEvt (m_eQueue s) = 0 then e else m_frontEvt (m_eQueue s)),
             m_ring := (if m_frontEvt (m_eQueue s) = 0 then m_ring (m_eQueue s) else (m_ring (m_eQueue s))(m_head (m_eQueue s) := e)),
             m_head := (if m_frontEvt (m_eQueue s) = 0 then m_head (m_eQueue s)
                        else (if m_head (m_eQueue s) = 0 then m_end (m_eQueue s) else m_head (m_eQueue s)) - 1)\<rparr>"
    and "ucast margin < m_nFree (m_eQueue s)" and "e \<noteq> 0"
  using assms
  by (auto simp add: QMActive_post_def Let_def QF_EVT_REF_CTR_INC_def split: if_splits)

lemma holdsD:
  fixes q :: "'c::len QEQueue"
  assumes "holds q xs"
  shows "unat (m_end q) + 1 < 2 ^ LENGTH('c)"
    and "0 \<notin> set xs"
    and "unat (m_nFree q) + length xs = unat (m_end q) + 1"
    and "m_end q = 0 \<or> m_tail q < m_end q"
    and "m_head q = (ring_prev (m_end q) ^^ (length xs - 1)) (m_tail q)"
    and "m_frontEvt q = (if xs = [] then 0 else hd xs)"
    and "tl xs = ring_list (m_ring q) (m_end q) (m_tail q) (length xs - 1)"
  using assms unfolding holds_def by blast+

lemma post_holds:
  fixes s :: "'c::len QF_state" and margin :: "'f::len word"
  assumes h: "holds (m_eQueue s) xs" and ok: "QMActive_post s e margin = Inr (True, s')"
  shows "holds (m_eQueue s') (xs @ [e])"
proof -
  define q where "q = m_eQueue s"
  note pq = post_queue [OF ok, folded q_def]
  note d = holdsD [OF h, folded q_def]
  have nf: "Suc (unat (m_nFree q - 1)) = unat (m_nFree q)" using pq(2) by (rule unat_pred)
  show ?thesis
  proof (cases xs)
    case Nil
    then show ?thesis
      using d nf pq(3) unfolding pq(1) holds_def by (simp add: ring_list_0)
  next
    case (Cons f rs)
    let ?n = "length rs" and ?en = "m_end q"
    have front: "m_frontEvt q = f" "f \<noteq> 0" using d(2,6) Cons by auto
    have len: "unat (m_nFree q) + Suc ?n = unat ?en + 1" using d(3) Cons by simp
    then have n: "?n < unat ?en" using nf by simp
    then have "?en \<noteq> 0" by auto
    then have t: "m_tail q < ?en" using d(4) by blast
    have hd: "m_head q = (ring_prev ?en ^^ ?n) (m_tail q)" using d(5) Cons by simp
    have rs: "rs = ring_list (m_ring q) ?en (m_tail q) ?n" using d(7) Cons by simp
    have upd: "ring_list ((m_ring q)(m_head q := e)) ?en (m_tail q) ?n = ring_list (m_ring q) ?en (m_tail q) ?n"
    proof (rule ring_list_update)
      fix i assume "i < ?n"
      then show "(ring_prev ?en ^^ i) (m_tail q) \<noteq> m_head q"
        unfolding hd using funpow_ring_prev_distinct [OF t _ n] by simp
    qed
    have ring': "ring_list ((m_ring q)(m_head q := e)) ?en (m_tail q) (Suc ?n) = rs @ [e]"
      unfolding ring_list_snoc upd using rs hd by (simp del: upt_Suc)
    have head': "(if m_head q = 0 then ?en else m_head q) - 1 = (ring_prev ?en ^^ Suc ?n) (m_tail q)"
      by (simp add: hd ring_prev_def)
    show ?thesis
      unfolding pq(1) holds_def Cons
      apply (simp only: front if_False QEQueue.simps)
      apply (intro conjI)
      using d(1,2) pq(3) nf len t Cons ring' head' front
            apply simp_all
      done
  qed
qed


lemma postLIFO_queue:
  fixes s :: "'c::len QF_state"
  assumes "QMActive_postLIFO s e = Inr s'"
  shows "m_eQueue s' =
           (m_eQueue s)\<lparr>m_nFree := m_nFree (m_eQueue s) - 1,
             m_nMin := (if m_nFree (m_eQueue s) - 1 < m_nMin (m_eQueue s) then m_nFree (m_eQueue s) - 1 else m_nMin (m_eQueue s)),
             m_frontEvt := e,
             m_tail := (if m_frontEvt (m_eQueue s) = 0 then m_tail (m_eQueue s)
                        else ring_next (m_end (m_eQueue s)) (m_tail (m_eQueue s))),
             m_ring := (if m_frontEvt (m_eQueue s) = 0 then m_ring (m_eQueue s)
                        else (m_ring (m_eQueue s))
                               (ring_next (m_end (m_eQueue s)) (m_tail (m_eQueue s)) := m_frontEvt (m_eQueue s)))\<rparr>"
    and "m_nFree (m_eQueue s) \<noteq> 0" and "e \<noteq> 0"
  using assms
  by (auto simp add: QMActive_postLIFO_def Let_def QF_EVT_REF_CTR_INC_def ring_next_def split: if_splits)

lemma unat_pred0: "x \<noteq> 0 \<Longrightarrow> Suc (unat (x - 1)) = unat (x::'c::len word)"
  by unat_arith

lemma postLIFO_holds:
  fixes s :: "'c::len QF_state"
  assumes h: "holds (m_eQueue s) xs" and ok: "QMActive_postLIFO s e = Inr s'"
  shows "holds (m_eQueue s') (e # xs)"
proof -
  define q where "q = m_eQueue s"
  note pq = postLIFO_queue [OF ok, folded q_def]
  note d = holdsD [OF h, folded q_def]
  have nf: "Suc (unat (m_nFree q - 1)) = unat (m_nFree q)" using pq(2) by (rule unat_pred0)
  show ?thesis
  proof (cases xs)
    case Nil
    then show ?thesis
      using d nf pq(3) unfolding pq(1) holds_def by (simp add: ring_list_0)
  next
    case (Cons f rs)
    let ?n = "length rs" and ?en = "m_end q"
    let ?t' = "ring_next ?en (m_tail q)"
    have front: "m_frontEvt q = f" "f \<noteq> 0" using d(2,6) Cons by auto
    have len: "unat (m_nFree q) + Suc ?n = unat ?en + 1" using d(3) Cons by simp
    then have n: "Suc ?n < Suc (unat ?en)" using nf by simp
    then have "?en \<noteq> 0" by auto
    then have t: "m_tail q < ?en" using d(4) by blast
    have t': "?t' < ?en" using t by (rule ring_next_less)
    have pt': "ring_prev ?en ?t' = m_tail q" using t by (rule ring_prev_next)
    have hd: "m_head q = (ring_prev ?en ^^ ?n) (m_tail q)" using d(5) Cons by simp
    have rs: "rs = ring_list (m_ring q) ?en (m_tail q) ?n" using d(7) Cons by simp
    have upd: "ring_list ((m_ring q)(?t' := f)) ?en (m_tail q) ?n = ring_list (m_ring q) ?en (m_tail q) ?n"
    proof (rule ring_list_update)
      fix i assume i: "i < ?n"
      have "(ring_prev ?en ^^ 0) ?t' \<noteq> (ring_prev ?en ^^ Suc i) ?t'"
        using i n by (intro funpow_ring_prev_distinct [OF t']) simp_all
      then show "(ring_prev ?en ^^ i) (m_tail q) \<noteq> ?t'"
        by (simp add: funpow_swap1 pt')
    qed
    have ring': "ring_list ((m_ring q)(?t' := f)) ?en ?t' (Suc ?n) = f # rs"
      unfolding ring_list_Suc pt' upd using rs by simp
    have head': "m_head q = (ring_prev ?en ^^ Suc ?n) ?t'"
      by (simp add: hd funpow_swap1 pt')
    show ?thesis
      unfolding pq(1) holds_def Cons
      apply (simp only: front if_False QEQueue.simps)
      apply (intro conjI)
      using d(1,2) pq(3) nf len t' Cons ring' head' front
            apply simp_all
      done
  qed
qed


lemma get_queue:
  fixes s :: "'c::len QF_state"
  assumes "QMActive_get s = Inr (e, s')"
  shows "e = m_frontEvt (m_eQueue s)" and "m_frontEvt (m_eQueue s) \<noteq> 0"
    and "m_eQueue s' =
           (if m_nFree (m_eQueue s) + 1 \<le> m_end (m_eQueue s)
            then (m_eQueue s)\<lparr>m_nFree := m_nFree (m_eQueue s) + 1,
                    m_frontEvt := m_ring (m_eQueue s) (m_tail (m_eQueue s)),
                    m_tail := ring_prev (m_end (m_eQueue s)) (m_tail (m_eQueue s))\<rparr>
            else (m_eQueue s)\<lparr>m_nFree := m_nFree (m_eQueue s) + 1, m_frontEvt := 0\<rparr>)"
  using assms
  by (auto simp add: QMActive_get_def QACTIVE_EQUEUE_WAIT_def Let_def ring_prev_def split: if_splits)

lemma get_holds:
  fixes s :: "'c::len QF_state"
  assumes h: "holds (m_eQueue s) xs" and ok: "QMActive_get s = Inr (e, s')"
  shows "xs \<noteq> [] \<and> e = hd xs \<and> holds (m_eQueue s') (tl xs)"
proof -
  define q where "q = m_eQueue s"
  note gq = get_queue [OF ok, folded q_def]
  note d = holdsD [OF h, folded q_def]
  from gq(2) d(6) obtain f rs where xs: "xs = f # rs" by (cases xs) auto
  let ?n = "length rs" and ?en = "m_end q"
  have e: "e = f" using gq(1) d(6) xs by simp
  have len: "unat (m_nFree q) + Suc ?n = unat ?en + 1" using d(3) xs by simp
  have u: "unat (m_nFree q + 1) = unat (m_nFree q) + 1"
    using len d(1) by (simp add: unat_word_ariths)
  show ?thesis
  proof (cases rs)
    case Nil
    then have "\<not> m_nFree q + 1 \<le> ?en" using len u by (simp add: word_le_nat_alt)
    then have q': "m_eQueue s' = q\<lparr>m_nFree := m_nFree q + 1, m_frontEvt := 0\<rparr>"
      using gq(3) by simp
    have "holds (m_eQueue s') []"
      unfolding q' holds_def using d(1,4,5) u len Nil xs by (simp add: ring_list_0)
    then show ?thesis using xs e Nil by simp
  next
    case (Cons r rs')
    then have "m_nFree q + 1 \<le> ?en" using len u by (simp add: word_le_nat_alt)
    then have q': "m_eQueue s' = q\<lparr>m_nFree := m_nFree q + 1,
                    m_frontEvt := m_ring q (m_tail q), m_tail := ring_prev ?en (m_tail q)\<rparr>"
      using gq(3) by simp
    have "?en \<noteq> 0" using len Cons by auto
    then have t: "m_tail q < ?en" using d(4) by blast
    have hd: "m_head q = (ring_prev ?en ^^ Suc (length rs')) (m_tail q)" using d(5) xs Cons by simp
    have rs: "r # rs' = ring_list (m_ring q) ?en (m_tail q) (Suc (length rs'))" using d(7) xs Cons by simp
    then have r: "m_ring q (m_tail q) = r" and rs': "rs' = ring_list (m_ring q) ?en (ring_prev ?en (m_tail q)) (length rs')"
      unfolding ring_list_Suc by simp_all
    have "holds (m_eQueue s') (r # rs')"
      unfolding q' holds_def
      apply (intro conjI)
      using d(1,2) u len xs Cons r rs' hd ring_prev_less [OF t]
            apply (simp_all add: funpow_swap1)
      done
    then show ?thesis using xs e Cons by simp
  qed
qed

lemma get_total:
  fixes s :: "'c::len QF_state"
  assumes h: "holds (m_eQueue s) (x # xs)"
  shows "\<exists>s'. QMActive_get s = Inr (x, s')"
proof -
  define q where "q = m_eQueue s"
  note d = holdsD [OF h, folded q_def]
  have front: "m_frontEvt q = x" "x \<noteq> 0" using d(2,6) by auto
  have len: "unat (m_nFree q) + Suc (length xs) = unat (m_end q) + 1" using d(3) by simp
  have u: "unat (m_nFree q + 1) = unat (m_nFree q) + 1"
    using len d(1) by (simp add: unat_word_ariths)
  have u2: "unat (m_end q + 1) = unat (m_end q) + 1"
    using d(1) by (simp add: unat_word_ariths)
  have "\<not> m_nFree q + 1 \<le> m_end q \<Longrightarrow> m_nFree q + 1 = m_end q + 1"
    using len u u2 by (simp add: word_le_nat_alt word_unat_eq_iff)
  then show ?thesis
    using front by (auto simp add: QMActive_get_def QACTIVE_EQUEUE_WAIT_def Let_def q_def)
qed

lemma postLIFO_total:
  fixes s :: "'c::len QF_state"
  assumes "m_nFree (m_eQueue s) \<noteq> 0" "e \<noteq> 0"
  shows "\<exists>s'. QMActive_postLIFO s e = Inr s'"
  using assms by (simp add: QMActive_postLIFO_def Let_def)

section \<open>Runs keep the list view\<close>

lemma post_False_queue:
  fixes s :: "'c::len QF_state" and margin :: "'f::len word"
  assumes "QMActive_post s e margin = Inr (False, s')"
  shows "m_eQueue s' = m_eQueue s"
  using assms
  by (auto simp add: QMActive_post_def Let_def QF_gc_def split: if_splits)

lemma step_holds:
  fixes s :: "'c::len QF_state" and x :: "'f::len word op"
  assumes h: "holds (m_eQueue s) xs" and ok: "step s x = Inr (r, s')"
  shows "\<exists>xs'. holds (m_eQueue s') xs' \<and> int (length xs') = int (length xs) + change r"
proof (cases x)
  case (POST e margin)
  then obtain b where p: "QMActive_post s e margin = Inr (b, s')" and r: "r = Posted b"
    using ok by (auto split: sum.splits)
  show ?thesis
  proof (cases b)
    case True
    then have "holds (m_eQueue s') (xs @ [e])" using post_holds [OF h] p by simp
    then show ?thesis using r True by (intro exI [of _ "xs @ [e]"]) simp
  next
    case False
    then have "m_eQueue s' = m_eQueue s" using post_False_queue [of s e margin s'] p by simp
    then show ?thesis using h r False by (intro exI [of _ xs]) simp
  qed
next
  case (POST_LIFO e)
  then have p: "QMActive_postLIFO s e = Inr s'" and r: "r = PostedLIFO"
    using ok by (auto split: sum.splits)
  have "holds (m_eQueue s') (e # xs)" using h p by (rule postLIFO_holds)
  then show ?thesis using r by (intro exI [of _ "e # xs"]) simp
next
  case GET
  then obtain e where p: "QMActive_get s = Inr (e, s')" and r: "r = Got e"
    using ok by (auto split: sum.splits)
  note g = get_holds [OF h p]
  then have "int (length (tl xs)) = int (length xs) - 1" by (cases xs) simp_all
  then show ?thesis using g r by (intro exI [of _ "tl xs"]) simp
qed

lemma holds_accounting:
  fixes q :: "'c::len QEQueue"
  assumes "holds q xs"
  shows "int (unat (m_nFree q)) + int (length xs) = int (unat (m_end q)) + 1"
    and "(m_nFree q = m_end q + 1) = (m_frontEvt q = 0)"
proof -
  note d = holdsD [OF assms]
  show "int (unat (m_nFree q)) + int (length xs) = int (unat (m_end q)) + 1"
    using d(3) by linarith
  have u2: "unat (m_end q + 1) = unat (m_end q) + 1"
    using d(1) by (simp add: unat_word_ariths)
  have "(m_nFree q = m_end q + 1) = (xs = [])"
    using d(3) u2 by (auto simp: word_unat_eq_iff)
  also have "\<dots> = (m_frontEvt q = 0)"
    using d(2,6) by (cases xs) auto
  finally show "(m_nFree q = m_end q + 1) = (m_frontEvt q = 0)" .
qed

lemma run_steady:
  fixes s :: "'c::len QF_state" and ops :: "'f::len word op list"
  assumes "holds (m_eQueue s) xs" and "run s ops = Inr tr"
  shows "\<forall>(k, s') \<in> set (steady_points (int (length xs)) tr).
           \<exists>xs'. holds (m_eQueue s') xs' \<and> int (length xs') = k"
  using assms
proof (induction ops arbitrary: s xs tr)
  case Nil
  then show ?case by simp
next
  case (Cons x ops)
  from Cons.prems(2) obtain r s1 tr1 where
    st: "step s x = Inr (r, s1)" and ru: "run s1 ops = Inr tr1" and tr: "tr = (r, s1) # tr1"
    by (auto split: sum.splits)
  from step_holds [OF Cons.prems(1) st] obtain xs1 where
    h1: "holds (m_eQueue s1) xs1" and l1: "int (length xs1) = int (length xs) + change r"
    by blast
  from Cons.IH [OF h1 ru] show ?case
    unfolding tr using h1 l1 by auto
qed

lemma fresh_holds: "fresh q \<Longrightarrow> holds q []"
  by (simp add: fresh_def holds_def ring_list_0 unat_word_ariths)

lemma final_Nil: "final s [] = s"
  by (simp add: final_def)

lemma final_Cons: "final s ((r, s1) # tr) = final s1 tr"
  by (simp add: final_def)

lemma run_posts:
  fixes s :: "'c::len QF_state" and posts :: "(evt_ptr \<times> 'f::len word) list"
  assumes "holds (m_eQueue s) xs"
    and "run s (map (\<lambda>(e, margin). POST e margin) posts) = Inr tr"
    and "\<forall>r \<in> set (map fst tr). r = Posted True"
  shows "holds (m_eQueue (final s tr)) (xs @ map fst posts)"
  using assms
proof (induction posts arbitrary: s xs tr)
  case Nil
  then show ?case by (simp add: final_Nil)
next
  case (Cons p posts)
  obtain e margin where p: "p = (e, margin)" by (cases p)
  from Cons.prems(2) obtain r s1 tr1 where
    st: "step s (POST e margin) = Inr (r, s1)"
    and ru: "run s1 (map (\<lambda>(e, margin). POST e margin) posts) = Inr tr1"
    and tr: "tr = (r, s1) # tr1"
    unfolding p by (auto split: sum.splits)
  have r: "r = Posted True" using Cons.prems(3) tr by simp
  then have "QMActive_post s e margin = Inr (True, s1)"
    using st by (auto split: sum.splits)
  then have h1: "holds (m_eQueue s1) (xs @ [e])"
    using post_holds [OF Cons.prems(1)] by blast
  have "holds (m_eQueue (final s1 tr1)) ((xs @ [e]) @ map fst posts)"
    using h1 ru Cons.prems(3) tr by (intro Cons.IH) simp_all
  then show ?case by (simp add: tr final_Cons p)
qed

lemma run_gets:
  fixes s :: "'c::len QF_state"
  assumes "holds (m_eQueue s) xs"
  shows "\<exists>tr. run s (replicate (length xs) (GET :: 'f::len word op)) = Inr tr \<and>
              map fst tr = map Got xs \<and> holds (m_eQueue (final s tr)) []"
  using assms
proof (induction xs arbitrary: s)
  case Nil
  then show ?case by (simp add: final_Nil)
next
  case (Cons x xs)
  from get_total [OF Cons.prems] obtain s1 where g: "QMActive_get s = Inr (x, s1)" by blast
  from get_holds [OF Cons.prems g] have h1: "holds (m_eQueue s1) xs" by simp
  from Cons.IH [OF h1] obtain tr1 where
    ru: "run s1 (replicate (length xs) (GET :: 'f word op)) = Inr tr1"
    and m: "map fst tr1 = map Got xs" and hf: "holds (m_eQueue (final s1 tr1)) []"
    by blast
  show ?case
    using g ru m hf by (intro exI [of _ "(Got x, s1) # tr1"]) (simp add: final_Cons)
qed

lemma step_nMin:
  fixes s :: "'c::len QF_state" and x :: "'f::len word op"
  assumes h: "holds (m_eQueue s) xs" and le: "m_nMin (m_eQueue s) \<le> m_nFree (m_eQueue s)"
    and ok: "step s x = Inr (r, s')"
  shows "m_nMin (m_eQueue s') = min (m_nMin (m_eQueue s)) (m_nFree (m_eQueue s'))"
proof (cases x)
  case (POST e margin)
  then obtain b where p: "QMActive_post s e margin = Inr (b, s')"
    using ok by (auto split: sum.splits)
  show ?thesis
  proof (cases b)
    case True
    then show ?thesis using post_queue(1) [of s e margin s'] p by (auto simp add: min_def)
  next
    case False
    then have "m_eQueue s' = m_eQueue s" using post_False_queue [of s e margin s'] p by simp
    then show ?thesis using le by (simp add: min_def)
  qed
next
  case (POST_LIFO e)
  then have p: "QMActive_postLIFO s e = Inr s'"
    using ok by (auto split: sum.splits)
  show ?thesis using postLIFO_queue(1) [OF p] by (auto simp add: min_def)
next
  case GET
  then obtain e where p: "QMActive_get s = Inr (e, s')"
    using ok by (auto split: sum.splits)
  note d = holdsD [OF h]
  have "xs \<noteq> []" using get_holds [OF h p] by simp
  then have "unat (m_nFree (m_eQueue s)) + 1 < 2 ^ LENGTH('c)"
    using d(1,3) by (cases xs) simp_all
  then have "m_nFree (m_eQueue s) \<le> m_nFree (m_eQueue s) + 1"
    by (simp add: word_le_nat_alt unat_word_ariths)
  then have "m_nMin (m_eQueue s) \<le> m_nFree (m_eQueue s) + 1" using le by simp
  then show ?thesis using get_queue(3) [OF p] by (simp add: min_def)
qed

lemma run_nMin:
  fixes s :: "'c::len QF_state" and ops :: "'f::len word op list"
  assumes "holds (m_eQueue s) xs" and "m_nMin (m_eQueue s) \<le> m_nFree (m_eQueue s)"
    and "run s ops = Inr tr"
  shows "m_nMin (m_eQueue (final s tr)) =
           Min (insert (m_nMin (m_eQueue s)) (set (map (\<lambda>(r, s'). m_nFree (m_eQueue s')) tr))) \<and>
         m_nMin (m_eQueue (final s tr)) \<le> m_nFree (m_eQueue (final s tr))"
  using assms
proof (induction ops arbitrary: s xs tr)
  case Nil
  then show ?case by (simp add: final_Nil)
next
  case (Cons x ops)
  from Cons.prems(3) obtain r s1 tr1 where
    st: "step s x = Inr (r, s1)" and ru: "run s1 ops = Inr tr1" and tr: "tr = (r, s1) # tr1"
    by (auto split: sum.splits)
  from step_holds [OF Cons.prems(1) st] obtain xs1 where h1: "holds (m_eQueue s1) xs1" by blast
  have m1: "m_nMin (m_eQueue s1) = min (m_nMin (m_eQueue s)) (m_nFree (m_eQueue s1))"
    using Cons.prems(1,2) st by (rule step_nMin)
  then have le1: "m_nMin (m_eQueue s1) \<le> m_nFree (m_eQueue s1)" by simp
  note ih = Cons.IH [OF h1 le1 ru]
  let ?S = "set (map (\<lambda>(r, s'). m_nFree (m_eQueue s')) tr1)"
  have "Min (insert (m_nMin (m_eQueue s1)) ?S)
          = Min (insert (m_nMin (m_eQueue s)) (insert (m_nFree (m_eQueue s1)) ?S))"
    unfolding m1 by (cases "?S = {}") (simp_all add: min.assoc)
  moreover have "set (map (\<lambda>(r, s'). m_nFree (m_eQueue s')) tr) = insert (m_nFree (m_eQueue s1)) ?S"
    by (simp add: tr)
  moreover have f: "final s tr = final s1 tr1" by (simp add: tr final_Cons)
  moreover note ih [THEN conjunct1]
  ultimately have "m_nMin (m_eQueue (final s tr)) =
           Min (insert (m_nMin (m_eQueue s)) (set (map (\<lambda>(r, s'). m_nFree (m_eQueue s')) tr)))"
    by (simp only:)
  then show ?case using ih [THEN conjunct2] unfolding f by (rule conjI)
qed

lemma run_take:
  fixes s :: "'c::len QF_state" and ops :: "'f::len word op list"
  assumes "run s ops = Inr tr"
  shows "run s (take i ops) = Inr (take i tr)"
  using assms
proof (induction ops arbitrary: s tr i)
  case Nil
  then show ?case by simp
next
  case (Cons x ops)
  from Cons.prems obtain r s1 tr1 where
    st: "step s x = Inr (r, s1)" and ru: "run s1 ops = Inr tr1" and tr: "tr = (r, s1) # tr1"
    by (auto split: sum.splits)
  show ?case
  proof (cases i)
    case 0
    then show ?thesis by simp
  next
    case (Suc j)
    then show ?thesis using st Cons.IH [OF ru, of j] by (simp add: tr)
  qed
qed

lemma unat_ucast_up:
  fixes x :: "'c::len word"
  assumes "LENGTH('c) \<le> LENGTH('f::len)"
  shows "unat (ucast x :: 'f word) = unat x"
proof -
  have "unat x < 2 ^ LENGTH('c)" by simp
  also have "\<dots> \<le> 2 ^ LENGTH('f)" using assms by simp
  finally show ?thesis by (simp add: unsigned_ucast_eq take_bit_nat_eq_self)
qed

section \<open>Single operations of the queue\<close>

lemmas sample_defs = near_full_def empty4_def two_held_def full4_def sample_evts_def

lemmas queue_code = QMActive_post_def QMActive_postLIFO_def QMActive_get_def
  QACTIVE_EQUEUE_WAIT_def QF_gc_def QF_EVT_REF_CTR_INC_def Let_def

lemma ucast_less_iff:
  fixes margin :: "'f::len word" and x :: "'c::len word"
  assumes "unat margin < 2 ^ LENGTH('c)"
  shows "(ucast margin < x) = (unat margin < unat x)"
proof -
  have "unat (ucast margin :: 'c word) = unat margin"
    using assms by (simp add: unsigned_ucast_eq take_bit_nat_eq_self)
  then show ?thesis by (simp add: word_less_nat_alt)
qed

lemma ucast_le_iff:
  fixes margin :: "'f::len word" and x :: "'c::len word"
  assumes "unat margin < 2 ^ LENGTH('c)"
  shows "(x \<le> ucast margin) = (unat x \<le> unat margin)"
  using ucast_less_iff [OF assms, of x] by (simp add: not_less [symmetric])

lemma post_accepts_iff:
  fixes s :: "'c::len QF_state" and margin :: "'f::len word"
  assumes "e \<noteq> 0"
  shows "(\<exists>s'. QMActive_post s e margin = Inr (True, s')) \<longleftrightarrow> ucast margin < m_nFree (m_eQueue s)"
  using assms by (auto simp: QMActive_post_def Let_def)

lemma post_rejects:
  fixes s :: "'c::len QF_state" and margin :: "'f::len word"
  assumes "e \<noteq> 0" "margin \<noteq> 0" "m_nFree (m_eQueue s) \<le> ucast margin"
  shows "QMActive_post s e margin = Inr (False, QF_gc e s)"
  using assms by (simp add: QMActive_post_def Let_def not_less [symmetric])

lemma gc_frame:
  "m_eQueue (QF_gc e s) = m_eQueue s \<and> calls (QF_gc e s) = calls s @ [QF_GC e]"
  by (simp add: QF_gc_def Let_def)

lemma post_evts:
  fixes s :: "'c::len QF_state" and margin :: "'f::len word"
  assumes "QMActive_post s e margin = Inr (True, s')"
  shows "evts s' = (evts s)(e := (evts s e)\<lparr>refCtr :=
           (if poolId (evts s e) \<noteq> 0 then refCtr (evts s e) + 1 else refCtr (evts s e))\<rparr>)"
  using assms
  by (auto simp add: QMActive_post_def Let_def QF_EVT_REF_CTR_INC_def split: if_splits)

lemma postLIFO_evts:
  fixes s :: "'c::len QF_state"
  assumes "QMActive_postLIFO s e = Inr s'"
  shows "evts s' = (evts s)(e := (evts s e)\<lparr>refCtr :=
           (if poolId (evts s e) \<noteq> 0 then refCtr (evts s e) + 1 else refCtr (evts s e))\<rparr>)"
  using assms
  by (auto simp add: QMActive_postLIFO_def Let_def QF_EVT_REF_CTR_INC_def split: if_splits)

text \<open>
  What it means for a caller to respect the preconditions: a posted event is not null, a
  post with margin 0 or a LIFO post finds a free slot, and \<^verbatim>\<open>get_\<close> finds an event. Then no
  assertion fails and the operation returns.
\<close>

lemma step_returns:
  fixes s :: "'c::len QF_state" and x :: "'f::len word op"
  assumes h: "holds (m_eQueue s) xs"
    and pre: "case x of
                POST e margin \<Rightarrow> e \<noteq> 0 \<and> (margin = 0 \<longrightarrow> m_nFree (m_eQueue s) \<noteq> 0)
              | POST_LIFO e \<Rightarrow> e \<noteq> 0 \<and> m_nFree (m_eQueue s) \<noteq> 0
              | GET \<Rightarrow> xs \<noteq> []"
  shows "\<exists>r s'. step s x = Inr (r, s')"
proof (cases x)
  case (POST e margin)
  with pre have e: "e \<noteq> 0" and m: "margin = 0 \<longrightarrow> m_nFree (m_eQueue s) \<noteq> 0" by simp_all
  show ?thesis
  proof (cases "(ucast margin :: 'c word) < m_nFree (m_eQueue s)")
    case True
    then obtain s' where "QMActive_post s e margin = Inr (True, s')"
      using post_accepts_iff [OF e, of s margin] by blast
    then show ?thesis using POST by simp
  next
    case False
    then have le: "m_nFree (m_eQueue s) \<le> ucast margin" by simp
    have "margin \<noteq> 0"
    proof
      assume z: "margin = 0"
      with m have "m_nFree (m_eQueue s) \<noteq> 0" by simp
      with le z show False by simp
    qed
    with e le have "QMActive_post s e margin = Inr (False, QF_gc e s)" by (intro post_rejects)
    then show ?thesis using POST by simp
  qed
next
  case (POST_LIFO e)
  with pre have "e \<noteq> 0" "m_nFree (m_eQueue s) \<noteq> 0" by simp_all
  from postLIFO_total [OF this(2,1)] show ?thesis using POST_LIFO by auto
next
  case GET
  with pre obtain y ys where "xs = y # ys" by (cases xs) auto
  with h get_total [of s y ys] show ?thesis using GET by auto
qed

text \<open>
  The concrete queues are the ones that FIFO posts of the events 1, 2, ... build from the
  freshly constructed queue.
\<close>

lemma sample_queues_reached:
  "m_eQueue (final empty4 (projr (run empty4 [POST 1 (0 :: 16 word), POST 2 0]))) = m_eQueue two_held"
  "m_eQueue (final empty4 (projr (run empty4 [POST 1 (0 :: 16 word), POST 2 0, POST 3 0, POST 4 0])))
     = m_eQueue near_full"
  "m_eQueue (final empty4 (projr (run empty4 [POST 1 (0 :: 16 word), POST 2 0, POST 3 0, POST 4 0, POST 5 0])))
     = m_eQueue full4"
  by (simp_all add: queue_code final_def sample_defs)

text \<open>
  What \<^verbatim>\<open>post_\<close> computes, for a non-null event: it returns true if and only if the value
  of \<^verbatim>\<open>nFree\<close> read at entry is strictly greater than \<^verbatim>\<open>static_cast<QEQueueCtr>(margin)\<close>.
  For a margin that the counter type can represent that is the margin itself. On success
  it decrements \<^verbatim>\<open>nFree\<close> by exactly one and stores the event: into \<^verbatim>\<open>frontEvt\<close> when the
  front slot was empty, leaving ring and head as they were, otherwise into \<^verbatim>\<open>ring[head]\<close>,
  after which the head wraps from 0 to \<^verbatim>\<open>end\<close> and is decremented.
\<close>

lemma post_fifo_result:
  fixes s :: "'c::len QF_state" and margin :: "'f::len word"
  assumes "e \<noteq> 0"
  shows "((\<exists>s'. QMActive_post s e margin = Inr (True, s')) \<longleftrightarrow>
            (ucast margin :: 'c word) < m_nFree (m_eQueue s)) \<and>
         (unat margin < 2 ^ LENGTH('c) \<longrightarrow>
            ((\<exists>s'. QMActive_post s e margin = Inr (True, s')) \<longleftrightarrow>
               unat margin < unat (m_nFree (m_eQueue s)))) \<and>
         (\<forall>s'. QMActive_post s e margin = Inr (True, s') \<longrightarrow>
            m_nFree (m_eQueue s') = m_nFree (m_eQueue s) - 1 \<and>
            unat (m_nFree (m_eQueue s')) + 1 = unat (m_nFree (m_eQueue s)) \<and>
            (if m_frontEvt (m_eQueue s) = 0
             then m_frontEvt (m_eQueue s') = e \<and>
                  m_ring (m_eQueue s') = m_ring (m_eQueue s) \<and>
                  m_head (m_eQueue s') = m_head (m_eQueue s)
             else m_frontEvt (m_eQueue s') = m_frontEvt (m_eQueue s) \<and>
                  m_ring (m_eQueue s') = (m_ring (m_eQueue s))(m_head (m_eQueue s) := e) \<and>
                  m_head (m_eQueue s') =
                    (if m_head (m_eQueue s) = 0 then m_end (m_eQueue s)
                     else m_head (m_eQueue s)) - 1))"
proof (intro conjI allI impI)
  show a: "(\<exists>s'. QMActive_post s e margin = Inr (True, s')) \<longleftrightarrow>
        (ucast margin :: 'c word) < m_nFree (m_eQueue s)"
    using assms by (rule post_accepts_iff)
  show "(\<exists>s'. QMActive_post s e margin = Inr (True, s')) \<longleftrightarrow>
          unat margin < unat (m_nFree (m_eQueue s))"
    if "unat margin < 2 ^ LENGTH('c)"
    using a that by (simp add: ucast_less_iff)
next
  fix s' assume ok: "QMActive_post s e margin = Inr (True, s')"
  note q = post_queue(1) [OF ok] and lt = post_queue(2) [OF ok]
  show "m_nFree (m_eQueue s') = m_nFree (m_eQueue s) - 1" by (simp add: q)
  show "unat (m_nFree (m_eQueue s')) + 1 = unat (m_nFree (m_eQueue s))"
    using unat_pred [OF lt] by (simp add: q)
  show "if m_frontEvt (m_eQueue s) = 0
         then m_frontEvt (m_eQueue s') = e \<and>
              m_ring (m_eQueue s') = m_ring (m_eQueue s) \<and>
              m_head (m_eQueue s') = m_head (m_eQueue s)
         else m_frontEvt (m_eQueue s') = m_frontEvt (m_eQueue s) \<and>
              m_ring (m_eQueue s') = (m_ring (m_eQueue s))(m_head (m_eQueue s) := e) \<and>
              m_head (m_eQueue s') =
                (if m_head (m_eQueue s) = 0 then m_end (m_eQueue s)
                 else m_head (m_eQueue s)) - 1"
    by (simp add: q)
qed

lemma post_fifo_result_example:
  "(5::nat) \<noteq> 0 \<and> unat (0 :: 16 word) < 2 ^ LENGTH(8) \<and>
   map_sum id fst (QMActive_post near_full 5 (0 :: 16 word)) = Inr True \<and>
   unat (0 :: 16 word) < unat (m_nFree (m_eQueue near_full)) \<and>
   m_nFree (m_eQueue (snd (projr (QMActive_post near_full 5 (0 :: 16 word))))) = 0 \<and>
   m_frontEvt (m_eQueue (snd (projr (QMActive_post near_full 5 (0 :: 16 word))))) = 1 \<and>
   m_ring (m_eQueue (snd (projr (QMActive_post near_full 5 (0 :: 16 word))))) 1 = 5 \<and>
   m_head (m_eQueue (snd (projr (QMActive_post near_full 5 (0 :: 16 word))))) = 0"
proof -
  have e: "(5::nat) \<noteq> 0" by simp
  have r: "\<exists>s'. QMActive_post near_full 5 (0 :: 16 word) = Inr (True, s')"
    by (simp add: QMActive_post_def Let_def sample_defs)
  then obtain s' where s': "QMActive_post near_full 5 (0 :: 16 word) = Inr (True, s')" ..
  from post_fifo_result [OF e, of near_full "0 :: 16 word"] s'
  show ?thesis by (simp add: sample_defs)
qed

text \<open>
  Claim C1. For every queue state and every margin, \<^verbatim>\<open>post_\<close> returns true if and only if
  the value of \<^verbatim>\<open>nFree\<close> read at entry is strictly greater than the margin; on success it
  decrements \<^verbatim>\<open>nFree\<close> by exactly one and stores the event. The doc comment of \<^verbatim>\<open>post_\<close>
  says the same: the margin is the number of free slots that the queue must have after
  posting. The code keeps to it for every margin that the counter type can represent
  (\<open>post_fifo_result\<close>) and breaks it beyond: the comparison converts the margin to
  \<^verbatim>\<open>QEQueueCtr\<close> first, while assertion 110 tests the margin as it was passed. With 8-bit
  counters the margin 256 is compared as 0. The queue \<open>near_full\<close>, with one free slot,
  accepts the event and uses the slot up although 1 is not greater than 256; on the full
  queue the same margin counts as nonzero, and the post returns false.
\<close>

theorem post_fifo_accepts_below_margin_256:
  "map_sum id fst (QMActive_post near_full 5 (256 :: 16 word)) = Inr True \<and>
   \<not> unat (256 :: 16 word) < unat (m_nFree (m_eQueue near_full)) \<and>
   m_nFree (m_eQueue near_full) = 1 \<and>
   m_nFree (m_eQueue (snd (projr (QMActive_post near_full 5 (256 :: 16 word))))) = 0 \<and>
   QMActive_post full4 5 (256 :: 16 word) = Inr (False, QF_gc 5 full4)"
  by (simp add: QMActive_post_def Let_def sample_defs)

text \<open>
  When \<^verbatim>\<open>post_\<close> rejects, for a non-null event and a margin other than 0: whenever the
  snapshot of \<^verbatim>\<open>nFree\<close> is at most \<^verbatim>\<open>static_cast<QEQueueCtr>(margin)\<close>, in particular at
  most a margin that the counter type can represent, it returns false and invokes
  \<^verbatim>\<open>gc(e)\<close> on the rejected event, and that call is all that happens: the queue
  (\<^verbatim>\<open>nFree\<close>, \<^verbatim>\<open>nMin\<close>, \<^verbatim>\<open>frontEvt\<close>, head, tail, ring) is unchanged.
\<close>

lemma post_fifo_rejection:
  fixes s :: "'c::len QF_state" and margin :: "'f::len word"
  assumes "e \<noteq> 0" and "margin \<noteq> 0"
  shows "(m_nFree (m_eQueue s) \<le> (ucast margin :: 'c word) \<or>
          unat margin < 2 ^ LENGTH('c) \<and> unat (m_nFree (m_eQueue s)) \<le> unat margin \<longrightarrow>
            QMActive_post s e margin = Inr (False, QF_gc e s)) \<and>
         m_eQueue (QF_gc e s) = m_eQueue s \<and>
         calls (QF_gc e s) = calls s @ [QF_GC e]"
proof -
  have "QMActive_post s e margin = Inr (False, QF_gc e s)"
    if "m_nFree (m_eQueue s) \<le> (ucast margin :: 'c word) \<or>
        unat margin < 2 ^ LENGTH('c) \<and> unat (m_nFree (m_eQueue s)) \<le> unat margin"
  proof -
    from that have "m_nFree (m_eQueue s) \<le> (ucast margin :: 'c word)"
      by (auto simp: ucast_le_iff)
    with assms show ?thesis by (rule post_rejects)
  qed
  then show ?thesis using gc_frame [of e s] by blast
qed

lemma post_fifo_rejection_example:
  "(5::nat) \<noteq> 0 \<and> (1 :: 16 word) \<noteq> 0 \<and>
   unat (1 :: 16 word) < 2 ^ LENGTH(8) \<and> unat (m_nFree (m_eQueue near_full)) \<le> unat (1 :: 16 word) \<and>
   QMActive_post near_full 5 (1 :: 16 word) = Inr (False, QF_gc 5 near_full) \<and>
   m_eQueue (QF_gc 5 near_full) = m_eQueue near_full \<and>
   calls (QF_gc 5 near_full) = [QF_GC 5]"
proof -
  have e: "(5::nat) \<noteq> 0" and m: "(1 :: 16 word) \<noteq> 0" by simp_all
  have n: "unat (1 :: 16 word) < 2 ^ LENGTH(8) \<and> unat (m_nFree (m_eQueue near_full)) \<le> unat (1 :: 16 word)"
    by (simp add: sample_defs)
  from post_fifo_rejection [OF e m, of near_full] n
  have "QMActive_post near_full 5 (1 :: 16 word) = Inr (False, QF_gc 5 near_full)"
    and "m_eQueue (QF_gc 5 near_full) = m_eQueue near_full"
    and "calls (QF_gc 5 near_full) = calls near_full @ [QF_GC 5]"
    by blast+
  then show ?thesis using n by (simp add: near_full_def)
qed

text \<open>
  Claim C5. Whenever \<^verbatim>\<open>post_\<close> is called with a margin greater than 0 and the snapshot of
  \<^verbatim>\<open>nFree\<close> is at most the margin, it returns false, invokes \<^verbatim>\<open>gc(e)\<close> on the rejected
  event and leaves the whole queue state unchanged. The doc comment of \<^verbatim>\<open>post_\<close> asks for
  this, and the code does it for every margin that the counter type can represent
  (\<open>post_fifo_rejection\<close>). Beyond that it does not: the same
  comparison converts the margin to \<^verbatim>\<open>QEQueueCtr\<close>, and with 8-bit counters the margin 512
  is compared as 0. The queue \<open>near_full\<close> has one free slot, which is at most 512, and yet
  the post returns true, calls no \<^verbatim>\<open>gc\<close> and takes the last slot.
\<close>

theorem post_fifo_accepts_below_margin_512:
  "(512 :: 16 word) \<noteq> 0 \<and>
   unat (m_nFree (m_eQueue near_full)) \<le> unat (512 :: 16 word) \<and>
   map_sum id fst (QMActive_post near_full 5 (512 :: 16 word)) = Inr True \<and>
   m_nFree (m_eQueue near_full) = 1 \<and>
   m_nFree (m_eQueue (snd (projr (QMActive_post near_full 5 (512 :: 16 word))))) = 0 \<and>
   m_head (m_eQueue near_full) = 1 \<and>
   m_head (m_eQueue (snd (projr (QMActive_post near_full 5 (512 :: 16 word))))) = 0 \<and>
   m_ring (m_eQueue (snd (projr (QMActive_post near_full 5 (512 :: 16 word))))) 1 = 5 \<and>
   calls (snd (projr (QMActive_post near_full 5 (512 :: 16 word)))) = []"
  by (simp add: QMActive_post_def Let_def sample_defs)

text \<open>
  Claim C6. Overflow is fatal rather than silent. \<^verbatim>\<open>post_\<close> called with margin 0 when
  \<^verbatim>\<open>nFree\<close> is at most the margin fails a fatal assertion (assertion 110, or assertion 100
  when the event pointer is null), and \<^verbatim>\<open>post_\<close> never returns false for margin 0;
  \<^verbatim>\<open>postLIFO\<close> called when \<^verbatim>\<open>nFree\<close> is 0 fails assertion 210. Under the preconditions, a
  free slot for either call, these two assertions cannot fail, and with a non-null event
  both calls return.
\<close>

theorem overflow_is_fatal:
  fixes s :: "'c::len QF_state"
  shows "(m_nFree (m_eQueue s) \<le> (ucast (0 :: 'f::len word) :: 'c word) \<longrightarrow>
            QMActive_post s e (0 :: 'f word) = Inl (Q_onAssert (if e = 0 then 100 else 110))) \<and>
         (\<forall>s'. QMActive_post s e (0 :: 'f word) \<noteq> Inr (False, s')) \<and>
         (m_nFree (m_eQueue s) = 0 \<longrightarrow> QMActive_postLIFO s e = Inl (Q_onAssert 210)) \<and>
         (m_nFree (m_eQueue s) \<noteq> 0 \<longrightarrow>
            QMActive_post s e (0 :: 'f word) \<noteq> Inl (Q_onAssert 110) \<and>
            QMActive_postLIFO s e \<noteq> Inl (Q_onAssert 210) \<and>
            (e \<noteq> 0 \<longrightarrow> (\<exists>s'. QMActive_post s e (0 :: 'f word) = Inr (True, s')) \<and>
                         (\<exists>s'. QMActive_postLIFO s e = Inr s')))"
proof (intro conjI allI impI)
  show "QMActive_post s e (0 :: 'f word) = Inl (Q_onAssert (if e = 0 then 100 else 110))"
    if "m_nFree (m_eQueue s) \<le> (ucast (0 :: 'f word) :: 'c word)"
    using that by (simp add: QMActive_post_def Let_def)
  show "QMActive_post s e (0 :: 'f word) \<noteq> Inr (False, s')" for s'
    by (simp add: QMActive_post_def Let_def)
  show "QMActive_postLIFO s e = Inl (Q_onAssert 210)" if "m_nFree (m_eQueue s) = 0"
    using that by (simp add: QMActive_postLIFO_def Let_def)
next
  assume n: "m_nFree (m_eQueue s) \<noteq> 0"
  then have lt: "(ucast (0 :: 'f word) :: 'c word) < m_nFree (m_eQueue s)"
    by (simp add: word_greater_zero_iff)
  show "QMActive_post s e (0 :: 'f word) \<noteq> Inl (Q_onAssert 110)"
    using lt by (simp add: QMActive_post_def Let_def)
  show "QMActive_postLIFO s e \<noteq> Inl (Q_onAssert 210)"
    using n by (simp add: QMActive_postLIFO_def Let_def)
  assume e: "e \<noteq> 0"
  show "\<exists>s'. QMActive_post s e (0 :: 'f word) = Inr (True, s')"
    using lt post_accepts_iff [OF e, of s "0 :: 'f word"] by simp
  show "\<exists>s'. QMActive_postLIFO s e = Inr s'"
    using n e by (rule postLIFO_total)
qed

theorem overflow_is_fatal_witness:
  "m_nFree (m_eQueue full4) \<le> (ucast (0 :: 16 word) :: 8 word) \<and>
   QMActive_post full4 6 (0 :: 16 word) = Inl (Q_onAssert 110) \<and>
   m_nFree (m_eQueue full4) = 0 \<and>
   QMActive_postLIFO full4 6 = Inl (Q_onAssert 210) \<and>
   m_nFree (m_eQueue near_full) = 1 \<and> (5::nat) \<noteq> 0 \<and>
   map_sum id fst (QMActive_post near_full 5 (0 :: 16 word)) = Inr True \<and>
   isl (QMActive_postLIFO near_full 5) = False"
proof -
  have a: "m_nFree (m_eQueue full4) \<le> (ucast (0 :: 16 word) :: 8 word)"
    and b: "m_nFree (m_eQueue full4) = 0" and c: "m_nFree (m_eQueue near_full) \<noteq> 0"
    and d: "m_nFree (m_eQueue near_full) = 1"
    by (simp_all add: sample_defs)
  note f = overflow_is_fatal [of full4 6, where 'f = 16]
  note n = overflow_is_fatal [of near_full 5, where 'f = 16]
  from f a b have "QMActive_post full4 6 (0 :: 16 word) = Inl (Q_onAssert 110)"
    and "QMActive_postLIFO full4 6 = Inl (Q_onAssert 210)"
    by simp_all
  moreover from n c obtain s1 s2 where "QMActive_post near_full 5 (0 :: 16 word) = Inr (True, s1)"
    and "QMActive_postLIFO near_full 5 = Inr s2"
    by auto
  ultimately show ?thesis using a b d by simp
qed

lemma unat_refCtr_succ:
  fixes r :: "8 word"
  assumes "r \<noteq> 255"
  shows "unat (r + 1) = unat r + 1"
proof -
  have "unat r \<noteq> 255" using assms by (simp add: word_unat_eq_iff)
  moreover have "unat r < 256" using unsigned_less [of r] by simp
  ultimately show ?thesis by (simp add: unat_word_ariths)
qed

text \<open>
  Claim C9. Every successful enqueue, \<^verbatim>\<open>post_\<close> returning true or \<^verbatim>\<open>postLIFO\<close>,
  increments the reference counter of the event by exactly one when \<^verbatim>\<open>poolId\<close> is not 0
  (in the arithmetic of the \<^verbatim>\<open>uint8_t\<close> field; below 255 the value itself goes up by one)
  and leaves it untouched when \<^verbatim>\<open>poolId\<close> is 0. Both operations do return for a non-null
  event, \<^verbatim>\<open>post_\<close> with true when the margin is available and \<^verbatim>\<open>postLIFO\<close> when a slot is
  free, and the counter of the event has then been incremented as said. Neither operation
  changes \<^verbatim>\<open>sig\<close> or \<^verbatim>\<open>poolId\<close> of the event, and no other event is written at all.
\<close>

theorem enqueue_increments_refCtr_only:
  fixes s :: "'c::len QF_state" and margin :: "'f::len word"
  assumes "e \<noteq> 0"
  shows "((ucast margin :: 'c word) < m_nFree (m_eQueue s) \<longrightarrow>
            (\<exists>s'. QMActive_post s e margin = Inr (True, s') \<and>
                  refCtr (evts s' e) =
                    (if poolId (evts s e) \<noteq> 0 then refCtr (evts s e) + 1 else refCtr (evts s e)))) \<and>
         (m_nFree (m_eQueue s) \<noteq> 0 \<longrightarrow>
            (\<exists>s'. QMActive_postLIFO s e = Inr s' \<and>
                  refCtr (evts s' e) =
                    (if poolId (evts s e) \<noteq> 0 then refCtr (evts s e) + 1 else refCtr (evts s e)))) \<and>
         (\<forall>s'. QMActive_post s e margin = Inr (True, s') \<or> QMActive_postLIFO s e = Inr s' \<longrightarrow>
            refCtr (evts s' e) =
              (if poolId (evts s e) \<noteq> 0 then refCtr (evts s e) + 1 else refCtr (evts s e)) \<and>
            (poolId (evts s e) \<noteq> 0 \<and> refCtr (evts s e) \<noteq> 255 \<longrightarrow>
               unat (refCtr (evts s' e)) = unat (refCtr (evts s e)) + 1) \<and>
            sig (evts s' e) = sig (evts s e) \<and>
            poolId (evts s' e) = poolId (evts s e) \<and>
            (\<forall>p. p \<noteq> e \<longrightarrow> evts s' p = evts s p))"
proof (intro conjI impI allI)
  assume "(ucast margin :: 'c word) < m_nFree (m_eQueue s)"
  then obtain s' where p: "QMActive_post s e margin = Inr (True, s')"
    using post_accepts_iff [OF assms, of s margin] by blast
  from post_evts [OF p] have "refCtr (evts s' e) =
      (if poolId (evts s e) \<noteq> 0 then refCtr (evts s e) + 1 else refCtr (evts s e))"
    by simp
  with p show "\<exists>s'. QMActive_post s e margin = Inr (True, s') \<and>
                  refCtr (evts s' e) =
                    (if poolId (evts s e) \<noteq> 0 then refCtr (evts s e) + 1 else refCtr (evts s e))"
    by blast
next
  assume "m_nFree (m_eQueue s) \<noteq> 0"
  from postLIFO_total [OF this assms] obtain s' where p: "QMActive_postLIFO s e = Inr s'" by blast
  from postLIFO_evts [OF p] have "refCtr (evts s' e) =
      (if poolId (evts s e) \<noteq> 0 then refCtr (evts s e) + 1 else refCtr (evts s e))"
    by simp
  with p show "\<exists>s'. QMActive_postLIFO s e = Inr s' \<and>
                  refCtr (evts s' e) =
                    (if poolId (evts s e) \<noteq> 0 then refCtr (evts s e) + 1 else refCtr (evts s e))"
    by blast
next
  fix s' assume a: "QMActive_post s e margin = Inr (True, s') \<or> QMActive_postLIFO s e = Inr s'"
  have ev: "evts s' = (evts s)(e := (evts s e)\<lparr>refCtr :=
           (if poolId (evts s e) \<noteq> 0 then refCtr (evts s e) + 1 else refCtr (evts s e))\<rparr>)"
    using a post_evts [of s e margin s'] postLIFO_evts [of s e s'] by blast
  show "refCtr (evts s' e) =
          (if poolId (evts s e) \<noteq> 0 then refCtr (evts s e) + 1 else refCtr (evts s e))"
    by (simp add: ev)
  show "unat (refCtr (evts s' e)) = unat (refCtr (evts s e)) + 1"
    if "poolId (evts s e) \<noteq> 0 \<and> refCtr (evts s e) \<noteq> 255"
    using that unat_refCtr_succ [of "refCtr (evts s e)"] by (simp add: ev)
  show "sig (evts s' e) = sig (evts s e)" by (simp add: ev)
  show "poolId (evts s' e) = poolId (evts s e)" by (simp add: ev)
  show "evts s' p = evts s p" if "p \<noteq> e" for p using that by (simp add: ev)
qed

theorem enqueue_increments_refCtr_only_witness:
  "(7::nat) \<noteq> 0 \<and> poolId (evts empty4 7) = 1 \<and> refCtr (evts empty4 7) = 0 \<and>
   (ucast (0 :: 16 word) :: 8 word) < m_nFree (m_eQueue two_held) \<and>
   m_nFree (m_eQueue two_held) = 3 \<and> m_nFree (m_eQueue empty4) = 5 \<and>
   map_sum id fst (QMActive_post empty4 7 (0 :: 16 word)) = Inr True \<and>
   refCtr (evts (snd (projr (QMActive_post empty4 7 (0 :: 16 word)))) 7) = 1 \<and>
   map_sum id fst (QMActive_post two_held 7 (0 :: 16 word)) = Inr True \<and>
   refCtr (evts (snd (projr (QMActive_post two_held 7 (0 :: 16 word)))) 7) = 1 \<and>
   sig (evts (snd (projr (QMActive_post two_held 7 (0 :: 16 word)))) 7) = 5 \<and>
   poolId (evts (snd (projr (QMActive_post two_held 7 (0 :: 16 word)))) 7) = 1 \<and>
   evts (snd (projr (QMActive_post two_held 7 (0 :: 16 word)))) 1 = evts two_held 1 \<and>
   isl (QMActive_postLIFO empty4 7) = False \<and>
   refCtr (evts (projr (QMActive_postLIFO empty4 7)) 7) = 1 \<and>
   isl (QMActive_postLIFO two_held 7) = False \<and>
   refCtr (evts (projr (QMActive_postLIFO two_held 7)) 7) = 1 \<and>
   unat (refCtr (evts (projr (QMActive_postLIFO two_held 7)) 7)) = unat (refCtr (evts two_held 7)) + 1 \<and>
   sig (evts (projr (QMActive_postLIFO two_held 7)) 7) = 5 \<and>
   poolId (evts (projr (QMActive_postLIFO two_held 7)) 7) = 1 \<and>
   evts (projr (QMActive_postLIFO two_held 7)) 1 = evts two_held 1 \<and>
   poolId (evts two_held 1) = 0 \<and>
   isl (QMActive_postLIFO two_held 1) = False \<and>
   refCtr (evts (projr (QMActive_postLIFO two_held 1)) 1) = refCtr (evts two_held 1) \<and>
   map_sum id fst (QMActive_post two_held 1 (0 :: 16 word)) = Inr True \<and>
   refCtr (evts (snd (projr (QMActive_post two_held 1 (0 :: 16 word)))) 1) = refCtr (evts two_held 1)"
proof -
  have e7: "(7::nat) \<noteq> 0" and e1: "(1::nat) \<noteq> 0" by simp_all
  have p: "poolId (evts empty4 7) = 1" "refCtr (evts empty4 7) = 0"
    "poolId (evts two_held 7) = 1" "refCtr (evts two_held 7) = 0" "sig (evts two_held 7) = 5"
    "poolId (evts two_held 1) = 0"
    by (simp_all add: sample_defs)
  have f: "(ucast (0 :: 16 word) :: 8 word) < m_nFree (m_eQueue two_held)"
    "(ucast (0 :: 16 word) :: 8 word) < m_nFree (m_eQueue empty4)"
    "m_nFree (m_eQueue two_held) \<noteq> 0" "m_nFree (m_eQueue empty4) \<noteq> 0"
    "m_nFree (m_eQueue two_held) = 3" "m_nFree (m_eQueue empty4) = 5"
    by (simp_all add: sample_defs)
  note a = enqueue_increments_refCtr_only [OF e7, of "0 :: 16 word" empty4]
  note b = enqueue_increments_refCtr_only [OF e7, of "0 :: 16 word" two_held]
  note c = enqueue_increments_refCtr_only [OF e1, of "0 :: 16 word" two_held]
  from a f obtain a1 a2 where
    a1: "QMActive_post empty4 7 (0 :: 16 word) = Inr (True, a1)"
    and a2: "QMActive_postLIFO empty4 7 = Inr a2"
    by blast
  from b f obtain b1 b2 where
    b1: "QMActive_post two_held 7 (0 :: 16 word) = Inr (True, b1)"
    and b2: "QMActive_postLIFO two_held 7 = Inr b2"
    by blast
  from c f obtain c1 c2 where
    c1: "QMActive_post two_held 1 (0 :: 16 word) = Inr (True, c1)"
    and c2: "QMActive_postLIFO two_held 1 = Inr c2"
    by blast
  note ra1 = a [THEN conjunct2, THEN conjunct2, rule_format, of a1, OF disjI1, OF a1]
  note ra2 = a [THEN conjunct2, THEN conjunct2, rule_format, of a2, OF disjI2, OF a2]
  note rb1 = b [THEN conjunct2, THEN conjunct2, rule_format, of b1, OF disjI1, OF b1]
  note rb2 = b [THEN conjunct2, THEN conjunct2, rule_format, of b2, OF disjI2, OF b2]
  note rc1 = c [THEN conjunct2, THEN conjunct2, rule_format, of c1, OF disjI1, OF c1]
  note rc2 = c [THEN conjunct2, THEN conjunct2, rule_format, of c2, OF disjI2, OF c2]
  show ?thesis
    unfolding a1 a2 b1 b2 c1 c2 sum.sel
    using ra1 ra2 rb1 rb2 rc1 rc2 p f by simp
qed

section \<open>Sequences of operations on the queue\<close>

text \<open>
  Claim C2. Start from a queue that holds some list of events and run any sequence of
  \<^verbatim>\<open>post_\<close>, \<^verbatim>\<open>postLIFO\<close> and \<^verbatim>\<open>get_\<close> in which no assertion fails. Then at every steady
  point, the state after each operation, \<^verbatim>\<open>nFree\<close> plus the number of events currently
  held equals \<^verbatim>\<open>end + 1\<close>, and \<^verbatim>\<open>nFree == end + 1\<close> holds exactly when \<^verbatim>\<open>frontEvt\<close> is the
  null pointer. The number of events held is counted from what the operations returned.
\<close>

theorem queue_accounting_at_steady_points:
  fixes s :: "'c::len QF_state" and ops :: "'f::len word op list"
  assumes "holds (m_eQueue s) xs" and "run s ops = Inr tr"
  shows "\<forall>(k, s') \<in> set (steady_points (int (length xs)) tr).
           int (unat (m_nFree (m_eQueue s'))) + k = int (unat (m_end (m_eQueue s'))) + 1 \<and>
           ((m_nFree (m_eQueue s') = m_end (m_eQueue s') + 1) = (m_frontEvt (m_eQueue s') = 0))"
proof -
  have "int (unat (m_nFree (m_eQueue s'))) + k = int (unat (m_end (m_eQueue s'))) + 1 \<and>
        ((m_nFree (m_eQueue s') = m_end (m_eQueue s') + 1) = (m_frontEvt (m_eQueue s') = 0))"
    if "(k, s') \<in> set (steady_points (int (length xs)) tr)" for k s'
  proof -
    from run_steady [OF assms] that obtain xs' where
      h: "holds (m_eQueue s') xs'" and k: "int (length xs') = k"
      by blast
    from holds_accounting [OF h] k show ?thesis by simp
  qed
  then show ?thesis by blast
qed

theorem queue_accounting_at_steady_points_witness:
  "holds (m_eQueue empty4) [] \<and>
   map (\<lambda>(k, s'). (k, unat (m_nFree (m_eQueue s')), unat (m_end (m_eQueue s')), m_frontEvt (m_eQueue s')))
       (steady_points 0 (projr (run empty4 [POST 1 (0 :: 16 word), POST 2 0, POST_LIFO 3, GET, GET, GET])))
     = [(1, 4, 4, 1), (2, 3, 4, 1), (3, 2, 4, 3), (2, 3, 4, 1), (1, 4, 4, 2), (0, 5, 4, 0)]"
proof -
  have h: "holds (m_eQueue empty4) []"
    by (simp add: holds_def ring_list_def sample_defs)
  obtain tr where r: "run empty4 [POST 1 (0 :: 16 word), POST 2 0, POST_LIFO 3, GET, GET, GET] = Inr tr"
    and v: "map (\<lambda>(k, s'). (k, unat (m_nFree (m_eQueue s')), unat (m_end (m_eQueue s')), m_frontEvt (m_eQueue s')))
       (steady_points 0 tr)
     = [(1, 4, 4, 1), (2, 3, 4, 1), (3, 2, 4, 3), (2, 3, 4, 1), (1, 4, 4, 2), (0, 5, 4, 0)]"
    by (simp add: queue_code sample_defs)
  from queue_accounting_at_steady_points [OF h r] h r v show ?thesis by simp
qed

text \<open>
  Claim C3. Events \<open>e1, ..., ek\<close> that are posted with \<^verbatim>\<open>post_\<close>, every post succeeding and no
  \<^verbatim>\<open>postLIFO\<close> in between, come out of \<^verbatim>\<open>get_\<close> in exactly the posting order: the next calls
  of \<^verbatim>\<open>get_\<close> all return, and they return the events that the queue held before, followed
  by \<open>e1, ..., ek\<close>. On a queue that was empty the next \<open>k\<close> calls return \<open>e1, ..., ek\<close>.
\<close>

theorem fifo_posts_are_delivered_in_order:
  fixes s :: "'c::len QF_state" and posts :: "(evt_ptr \<times> 'f::len word) list"
  assumes "holds (m_eQueue s) xs"
    and "run s (map (\<lambda>(e, margin). POST e margin) posts) = Inr tr"
    and "\<forall>r \<in> set (map fst tr). r = Posted True"
  shows "\<exists>tr'. run (final s tr) (replicate (length xs + length posts) (GET :: 'f word op)) = Inr tr' \<and>
               map fst tr' = map Got (xs @ map fst posts)"
proof -
  have "holds (m_eQueue (final s tr)) (xs @ map fst posts)"
    using assms by (rule run_posts)
  from run_gets [OF this, where 'f = 'f] show ?thesis by auto
qed

theorem fifo_posts_are_delivered_in_order_witness:
  "holds (m_eQueue empty4) [] \<and>
   map fst (projr (run empty4 (map (\<lambda>(e, margin). POST e margin) [(1, 0 :: 16 word), (2, 0), (7, 1)])))
     = [Posted True, Posted True, Posted True] \<and>
   map fst (projr (run (final empty4 (projr (run empty4
       (map (\<lambda>(e, margin). POST e margin) [(1, 0 :: 16 word), (2, 0), (7, 1)]))))
     [GET, GET, GET :: 16 word op])) = [Got 1, Got 2, Got 7]"
proof -
  have h: "holds (m_eQueue empty4) []"
    by (simp add: holds_def ring_list_def sample_defs)
  obtain tr where r: "run empty4 (map (\<lambda>(e, margin). POST e margin) [(1, 0 :: 16 word), (2, 0), (7, 1)]) = Inr tr"
    and v: "map fst tr = [Posted True, Posted True, Posted True]"
    by (simp add: queue_code sample_defs)
  have a: "\<forall>r \<in> set (map fst tr). r = Posted True" unfolding v by simp
  from fifo_posts_are_delivered_in_order [OF h r a] obtain tr' where
    t1: "run (final empty4 tr)
           (replicate (length ([] :: evt_ptr list) + length [(1 :: evt_ptr, 0 :: 16 word), (2, 0), (7, 1)])
              (GET :: 16 word op)) = Inr tr'"
    and t2: "map fst tr' = map Got ([] @ map fst [(1 :: evt_ptr, 0 :: 16 word), (2, 0), (7, 1)])"
    by blast
  have t1': "run (final empty4 tr) [GET, GET, GET :: 16 word op] = Inr tr'"
    using t1 by (simp del: run.simps)
  show ?thesis unfolding r t1' sum.sel using h v t2 by simp
qed

lemma postLIFO_then_get:
  fixes s :: "'c::len QF_state"
  assumes n: "m_nFree (m_eQueue s) \<noteq> 0" and e: "e \<noteq> 0"
    and b: "unat (m_nFree (m_eQueue s)) \<le> unat (m_end (m_eQueue s)) + 1"
  shows "\<exists>s1 s2. QMActive_postLIFO s e = Inr s1 \<and> QMActive_get s1 = Inr (e, s2)"
proof -
  from postLIFO_total [OF n e] obtain s1 where p: "QMActive_postLIFO s e = Inr s1" by blast
  note q = postLIFO_queue(1) [OF p]
  have f: "m_frontEvt (m_eQueue s1) = e" and en: "m_end (m_eQueue s1) = m_end (m_eQueue s)"
    and nf: "m_nFree (m_eQueue s1) + 1 = m_nFree (m_eQueue s)"
    by (simp_all add: q)
  have "m_nFree (m_eQueue s) = m_end (m_eQueue s) + 1"
    if "\<not> m_nFree (m_eQueue s) \<le> m_end (m_eQueue s)"
  proof -
    from that have "unat (m_end (m_eQueue s)) < unat (m_nFree (m_eQueue s))"
      by (simp add: word_le_nat_alt)
    with b have u: "unat (m_nFree (m_eQueue s)) = unat (m_end (m_eQueue s)) + 1" by simp
    have "unat (m_nFree (m_eQueue s)) < 2 ^ LENGTH('c)" by simp
    with u have "unat (m_end (m_eQueue s) + 1) = unat (m_end (m_eQueue s)) + 1"
      by (simp add: unat_word_ariths)
    with u show ?thesis by (simp add: word_unat_eq_iff)
  qed
  then have "\<exists>s2. QMActive_get s1 = Inr (e, s2)"
    using e f en nf by (auto simp add: QMActive_get_def QACTIVE_EQUEUE_WAIT_def Let_def)
  with p show ?thesis by blast
qed

text \<open>
  Claim C4. On any queue with \<^verbatim>\<open>nFree\<close> not 0 (and, as in every queue, at most \<^verbatim>\<open>end + 1\<close>),
  \<^verbatim>\<open>postLIFO(e)\<close> with a non-null event returns and the next \<^verbatim>\<open>get_\<close> returns \<open>e\<close>. On a
  queue that holds the events \<open>xs\<close>, the calls of \<^verbatim>\<open>get_\<close> after \<^verbatim>\<open>postLIFO(e)\<close> return \<open>e\<close> and
  then \<open>xs\<close> in their order: for a queue that holds \<open>e1\<close> in the front slot and \<open>e2\<close> in the
  ring, the three calls of \<^verbatim>\<open>get_\<close> after \<^verbatim>\<open>postLIFO(e3)\<close> return \<open>e3\<close>, \<open>e1\<close>, \<open>e2\<close>.
\<close>

theorem lifo_post_is_delivered_first:
  fixes s :: "'c::len QF_state"
  assumes "m_nFree (m_eQueue s) \<noteq> 0" and "e \<noteq> 0"
  shows "(unat (m_nFree (m_eQueue s)) \<le> unat (m_end (m_eQueue s)) + 1 \<longrightarrow>
            (\<exists>s1 s2. QMActive_postLIFO s e = Inr s1 \<and> QMActive_get s1 = Inr (e, s2))) \<and>
         (holds (m_eQueue s) xs \<longrightarrow>
            (\<exists>tr. run s (POST_LIFO e # replicate (Suc (length xs)) (GET :: 'f::len word op)) = Inr tr \<and>
                  map fst tr = PostedLIFO # map Got (e # xs)))"
proof (intro conjI impI)
  assume "unat (m_nFree (m_eQueue s)) \<le> unat (m_end (m_eQueue s)) + 1"
  with assms show "\<exists>s1 s2. QMActive_postLIFO s e = Inr s1 \<and> QMActive_get s1 = Inr (e, s2)"
    by (rule postLIFO_then_get)
next
  assume h: "holds (m_eQueue s) xs"
  from postLIFO_total [OF assms] obtain s1 where p: "QMActive_postLIFO s e = Inr s1" by blast
  have h1: "holds (m_eQueue s1) (e # xs)" using h p by (rule postLIFO_holds)
  from run_gets [OF h1, where 'f = 'f] obtain tr1 where
    ru: "run s1 (replicate (Suc (length xs)) (GET :: 'f word op)) = Inr tr1"
    and m: "map fst tr1 = map Got (e # xs)"
    by auto
  have "run s (POST_LIFO e # replicate (Suc (length xs)) (GET :: 'f word op)) = Inr ((PostedLIFO, s1) # tr1)"
    using p ru by (simp del: replicate_Suc)
  then show "\<exists>tr. run s (POST_LIFO e # replicate (Suc (length xs)) (GET :: 'f word op)) = Inr tr \<and>
                  map fst tr = PostedLIFO # map Got (e # xs)"
    using m by auto
qed

theorem lifo_post_is_delivered_first_witness:
  "m_nFree (m_eQueue two_held) = 3 \<and> (3::nat) \<noteq> 0 \<and>
   unat (m_nFree (m_eQueue two_held)) \<le> unat (m_end (m_eQueue two_held)) + 1 \<and>
   holds (m_eQueue two_held) [1, 2] \<and>
   map_sum id fst (QMActive_get (projr (QMActive_postLIFO two_held 3))) = Inr 3 \<and>
   map fst (projr (run two_held [POST_LIFO 3, GET, GET, GET :: 16 word op]))
     = [PostedLIFO, Got 3, Got 1, Got 2]"
proof -
  have h: "holds (m_eQueue two_held) [1, 2]"
    by (simp add: holds_def ring_list_def ring_prev_def sample_defs)
  have n: "m_nFree (m_eQueue two_held) \<noteq> 0" and n3: "m_nFree (m_eQueue two_held) = 3"
    and b: "unat (m_nFree (m_eQueue two_held)) \<le> unat (m_end (m_eQueue two_held)) + 1"
    by (simp_all add: sample_defs)
  have e: "(3::nat) \<noteq> 0" by simp
  note t = lifo_post_is_delivered_first [OF n e, where 'f = 16 and xs = "[1, 2]"]
  from t [THEN conjunct1, rule_format, OF b] obtain s1 s2 where
    p: "QMActive_postLIFO two_held 3 = Inr s1" and g: "QMActive_get s1 = Inr (3, s2)"
    by (elim exE conjE)
  from t [THEN conjunct2, rule_format, OF h] obtain tr where
    r: "run two_held (POST_LIFO 3 # replicate (Suc (length [1 :: evt_ptr, 2])) (GET :: 16 word op)) = Inr tr"
    and m: "map fst tr = PostedLIFO # map Got [3, 1, 2]"
    by (elim exE conjE)
  have r': "run two_held [POST_LIFO 3, GET, GET, GET :: 16 word op] = Inr tr"
    using r by (simp del: run.simps)
  show ?thesis unfolding p r' sum.sel g using h n3 b m by simp
qed

text \<open>
  Claim C8. Start from a freshly constructed queue and run any sequence of queue
  operations in which no assertion fails. After every number \<open>i\<close> of operations, \<^verbatim>\<open>nMin\<close>
  equals the minimum of all values that \<^verbatim>\<open>nFree\<close> has held since construction, \<^verbatim>\<open>nMin\<close> is
  at most \<^verbatim>\<open>nFree\<close>, and \<^verbatim>\<open>nMin\<close> is at most what it was at any earlier point. For a priority
  that refers to a started active object, \<^verbatim>\<open>getQueueMin(prio)\<close> returns that value of \<^verbatim>\<open>nMin\<close>,
  converted to \<^verbatim>\<open>uint_fast16_t\<close> (the same number whenever \<^verbatim>\<open>uint_fast16_t\<close> is at least as
  wide as the counter type), and leaves the table of active objects as it was.
\<close>

theorem nMin_is_low_water_mark:
  fixes s0 :: "'c::len QF_state" and ops :: "'f::len word op list"
  assumes "fresh (m_eQueue s0)" and "run s0 ops = Inr tr" and "i \<le> length tr"
  shows "m_nMin (m_eQueue (final s0 (take i tr))) =
           Min (set (map (\<lambda>s. m_nFree (m_eQueue s)) (s0 # map snd (take i tr)))) \<and>
         m_nMin (m_eQueue (final s0 (take i tr))) \<le> m_nFree (m_eQueue (final s0 (take i tr))) \<and>
         (\<forall>j \<le> i. m_nMin (m_eQueue (final s0 (take i tr))) \<le> m_nMin (m_eQueue (final s0 (take j tr)))) \<and>
         (\<forall>active prio. prio \<le> QF_MAX_ACTIVE \<and> active prio = Some (m_eQueue (final s0 (take i tr))) \<longrightarrow>
            QF_getQueueMin QF_MAX_ACTIVE active prio =
              Inr (ucast (m_nMin (m_eQueue (final s0 (take i tr)))) :: 'g::len word, active) \<and>
            (LENGTH('c) \<le> LENGTH('g) \<longrightarrow>
               unat (ucast (m_nMin (m_eQueue (final s0 (take i tr)))) :: 'g word) =
               unat (m_nMin (m_eQueue (final s0 (take i tr))))))"
proof -
  have h0: "holds (m_eQueue s0) []" using assms(1) by (rule fresh_holds)
  have e0: "m_nMin (m_eQueue s0) = m_nFree (m_eQueue s0)" using assms(1) by (simp add: fresh_def)
  have key: "m_nMin (m_eQueue (final s0 (take k tr))) =
           Min (set (map (\<lambda>s. m_nFree (m_eQueue s)) (s0 # map snd (take k tr)))) \<and>
         m_nMin (m_eQueue (final s0 (take k tr))) \<le> m_nFree (m_eQueue (final s0 (take k tr)))" for k
  proof -
    have rk: "run s0 (take k ops) = Inr (take k tr)" using assms(2) by (rule run_take)
    have le0: "m_nMin (m_eQueue s0) \<le> m_nFree (m_eQueue s0)" using e0 by simp
    have r: "m_nMin (m_eQueue (final s0 (take k tr))) =
           Min (insert (m_nMin (m_eQueue s0)) (set (map (\<lambda>(r, s'). m_nFree (m_eQueue s')) (take k tr)))) \<and>
         m_nMin (m_eQueue (final s0 (take k tr))) \<le> m_nFree (m_eQueue (final s0 (take k tr)))"
      using h0 le0 rk by (rule run_nMin)
    have "insert (m_nMin (m_eQueue s0)) (set (map (\<lambda>(r, s'). m_nFree (m_eQueue s')) (take k tr)))
        = set (map (\<lambda>s. m_nFree (m_eQueue s)) (s0 # map snd (take k tr)))"
      by (simp add: e0 case_prod_unfold image_image)
    with r [THEN conjunct1] have "m_nMin (m_eQueue (final s0 (take k tr))) =
           Min (set (map (\<lambda>s. m_nFree (m_eQueue s)) (s0 # map snd (take k tr))))"
      by (simp only:)
    then show ?thesis using r [THEN conjunct2] by (rule conjI)
  qed
  have mono: "m_nMin (m_eQueue (final s0 (take i tr))) \<le> m_nMin (m_eQueue (final s0 (take j tr)))"
    if "j \<le> i" for j
  proof -
    have "set (take j tr) \<subseteq> set (take i tr)" using that by (rule set_take_subset_set_take)
    then have "set (map (\<lambda>s. m_nFree (m_eQueue s)) (s0 # map snd (take j tr)))
                 \<subseteq> set (map (\<lambda>s. m_nFree (m_eQueue s)) (s0 # map snd (take i tr)))"
      by auto
    then have "Min (set (map (\<lambda>s. m_nFree (m_eQueue s)) (s0 # map snd (take i tr))))
                 \<le> Min (set (map (\<lambda>s. m_nFree (m_eQueue s)) (s0 # map snd (take j tr))))"
      by (intro Min_antimono) simp_all
    then show ?thesis using key [of i] key [of j] by simp
  qed
  show ?thesis
    using key [of i] mono by (auto simp: QF_getQueueMin_def unat_ucast_up)
qed

theorem nMin_is_low_water_mark_witness:
  "fresh (m_eQueue empty4) \<and>
   map (\<lambda>(r, s). (unat (m_nFree (m_eQueue s)), unat (m_nMin (m_eQueue s))))
     (projr (run empty4 [POST 1 (0 :: 16 word), POST 2 0, GET, POST_LIFO 3, GET, GET]))
     = [(4, 4), (3, 3), (4, 3), (3, 3), (4, 3), (5, 3)] \<and>
   m_nMin (m_eQueue (final empty4 (take 6
     (projr (run empty4 [POST 1 (0 :: 16 word), POST 2 0, GET, POST_LIFO 3, GET, GET]))))) = 3 \<and>
   QF_getQueueMin 8 ((\<lambda>p. None)(3 := Some (m_eQueue (final empty4 (take 6
     (projr (run empty4 [POST 1 (0 :: 16 word), POST 2 0, GET, POST_LIFO 3, GET, GET]))))))) 3
     = Inr (3 :: 16 word, (\<lambda>p. None)(3 := Some (m_eQueue (final empty4 (take 6
     (projr (run empty4 [POST 1 (0 :: 16 word), POST 2 0, GET, POST_LIFO 3, GET, GET])))))))"
proof -
  have f: "fresh (m_eQueue empty4)"
    by (simp add: fresh_def sample_defs)
  obtain tr where r: "run empty4 [POST 1 (0 :: 16 word), POST 2 0, GET, POST_LIFO 3, GET, GET] = Inr tr"
    and v: "map (\<lambda>(r, s). (unat (m_nFree (m_eQueue s)), unat (m_nMin (m_eQueue s)))) tr
              = [(4, 4), (3, 3), (4, 3), (3, 3), (4, 3), (5, 3)]"
    and l: "length tr = 6"
    and m: "map (\<lambda>s. m_nFree (m_eQueue s)) (empty4 # map snd (take 6 tr)) = [5, 4, 3, 4, 3, 4, 5]"
    by (simp add: queue_code sample_defs)
  have i: "6 \<le> length tr" using l by simp
  let ?q = "m_eQueue (final empty4 (take 6 tr))"
  note t = nMin_is_low_water_mark [OF f r i, where 'g = 16 and QF_MAX_ACTIVE = 8]
  from t have "m_nMin ?q = 3" unfolding m by simp
  moreover from t have "QF_getQueueMin 8 ((\<lambda>p. None)(3 := Some ?q)) 3
          = Inr (ucast (m_nMin ?q) :: 16 word, (\<lambda>p. None)(3 := Some ?q))"
    by simp
  ultimately show ?thesis using f r v by simp
qed

end
